theory Spec2Isabelle
  imports Complex_Main "HOL-Library.Log_Nat" "HOL-Library.Multiset"
begin

section \<open>Python values the scripts compute with\<close>

text \<open>
  The dataset scripts \<^verbatim>\<open>convert_deeppcb.py\<close>, \<^verbatim>\<open>fix_and_setup_dataset.py\<close> and
  \<^verbatim>\<open>prepare_data.py\<close> are embedded as HOL functions. Exceptions are values of
  \<open>py_error\<close>; a computation that may raise returns \<open>py_error + 'a\<close>.
\<close>

datatype py_error = ValueError | IndexError | OverflowError | ZeroDivisionError | OSError

definition bind_e :: "py_error + 'a \<Rightarrow> ('a \<Rightarrow> py_error + 'b) \<Rightarrow> py_error + 'b" where
  "bind_e m f = (case m of Inl e \<Rightarrow> Inl e | Inr v \<Rightarrow> f v)"

subsection \<open>Floats: IEEE binary64, round to nearest, ties to even\<close>

text \<open>
  A finite Python float is the rational it denotes. \<open>fl\<close> rounds a rational to the nearest
  binary64 value: 53 significant bits, the spacing of subnormals (\<open>2 powi (- 1074)\<close>) below
  \<open>2 powi (- 1022)\<close>. A rounded result of magnitude \<open>2 ^ 1024\<close> or more, that is of
  binary exponent 1024 or more, is out of range.
\<close>

definition round_half_even :: "rat \<Rightarrow> int" where
  "round_half_even x =
     (let f = \<lfloor>x\<rfloor>; d = x - of_int f
      in if d < 1 / 2 then f else if 1 / 2 < d then f + 1 else if even f then f else f + 1)"

text \<open>\<open>ilog2 x\<close> is the binary exponent of a positive rational: \<open>2 powi ilog2 x \<le> x < 2 powi (ilog2 x + 1)\<close>.\<close>

definition ilog2 :: "rat \<Rightarrow> int" where
  "ilog2 x =
     (let (p, q) = quotient_of x; e = bitlen p - bitlen q
      in if 2 powi e \<le> x then e else e - 1)"

definition ulp_exp :: "rat \<Rightarrow> int" where
  "ulp_exp x = max (ilog2 \<bar>x\<bar>) (- 1022) - 52"

definition fl :: "rat \<Rightarrow> rat" where
  "fl x = (if x = 0 then 0
           else of_int (round_half_even (x / 2 powi ulp_exp x)) * 2 powi ulp_exp x)"

definition to_float :: "rat \<Rightarrow> py_error + rat" where
  "to_float q =
     (let r = fl q
      in if r \<noteq> 0 \<and> 1024 \<le> ilog2 \<bar>r\<bar> then Inl OverflowError else Inr r)"

text \<open>\<^verbatim>\<open>float(n)\<close> for an int, as the mixed operators do it: OverflowError when too large.\<close>

definition float_of_int :: "int \<Rightarrow> py_error + rat" where
  "float_of_int n = to_float (of_int n)"

text \<open>\<^verbatim>\<open>a / b\<close> on two ints: the exact quotient, rounded once.\<close>

definition int_truediv :: "int \<Rightarrow> int \<Rightarrow> py_error + rat" where
  "int_truediv a b = (if b = 0 then Inl ZeroDivisionError else to_float (of_int a / of_int b))"

text \<open>
  \<^verbatim>\<open>x / n\<close> on a float and an int: the int is converted first. The converted divisor of a
  non-zero int has magnitude at least 1, so the quotient of a finite float stays finite.
\<close>

definition float_div_int :: "rat \<Rightarrow> int \<Rightarrow> py_error + rat" where
  "float_div_int x n =
     bind_e (float_of_int n) (\<lambda>d. if d = 0 then Inl ZeroDivisionError else Inr (fl (x / d)))"

text \<open>
  \<^verbatim>\<open>x + y\<close> and \<^verbatim>\<open>n * x\<close> as the splitter uses them, inside \<^verbatim>\<open>int(...)\<close> on a positive
  count: a sum or product out of range is an infinity, which \<^verbatim>\<open>int\<close> refuses with
  OverflowError; that is where the error is placed here.
\<close>

definition float_add :: "rat \<Rightarrow> rat \<Rightarrow> py_error + rat" where
  "float_add x y = to_float (x + y)"

definition int_mul_float :: "int \<Rightarrow> rat \<Rightarrow> py_error + rat" where
  "int_mul_float n x = bind_e (float_of_int n) (\<lambda>m. to_float (m * x))"

text \<open>\<^verbatim>\<open>int(x)\<close> on a finite float truncates toward zero.\<close>

definition int_of_float :: "rat \<Rightarrow> int" where
  "int_of_float x = (if 0 \<le> x then \<lfloor>x\<rfloor> else \<lceil>x\<rceil>)"

text \<open>A decimal float literal of the source text denotes the nearest double.\<close>

definition float_literal :: "rat \<Rightarrow> rat" where
  "float_literal q = fl q"

subsection \<open>Strings\<close>

text \<open>
  A character is a code point below 256. \<^verbatim>\<open>str.strip\<close> and \<^verbatim>\<open>str.split\<close> take as whitespace
  TAB, LF, VT, FF, CR, FS, GS, RS, US, SPACE, NEL and NBSP.
\<close>

definition py_isspace :: "char \<Rightarrow> bool" where
  "py_isspace c = (c \<in> set [CHR 0x09, CHR 0x0A, CHR 0x0B, CHR 0x0C, CHR 0x0D,
                             CHR 0x1C, CHR 0x1D, CHR 0x1E, CHR 0x1F, CHR 0x20,
                             CHR 0x85, CHR 0xA0])"

text \<open>
  \<^verbatim>\<open>int\<close> skips less: TAB, LF, VT, FF, CR and SPACE, and NEL and NBSP, which it turns into
  spaces first; FS, GS, RS and US are not whitespace to it.
\<close>

definition int_isspace :: "char \<Rightarrow> bool" where
  "int_isspace c = (c \<in> set [CHR 0x09, CHR 0x0A, CHR 0x0B, CHR 0x0C, CHR 0x0D, CHR 0x20,
                              CHR 0x85, CHR 0xA0])"

definition strip :: "string \<Rightarrow> string" where
  "strip s = rev (dropWhile py_isspace (rev (dropWhile py_isspace s)))"

text \<open>Cut at every character satisfying \<open>P\<close>, keeping empty pieces (\<^verbatim>\<open>s.split(',')\<close>).\<close>

primrec split_where :: "(char \<Rightarrow> bool) \<Rightarrow> string \<Rightarrow> string list" where
  "split_where P [] = [[]]"
| "split_where P (c # cs) =
     (if P c then [] # split_where P cs
      else (case split_where P cs of [] \<Rightarrow> [[c]] | t # ts \<Rightarrow> (c # t) # ts))"

definition split_comma :: "string \<Rightarrow> string list" where
  "split_comma s = split_where (\<lambda>c. c = CHR '','') s"

text \<open>\<^verbatim>\<open>s.split()\<close>: the maximal runs of non-whitespace.\<close>

definition split_ws :: "string \<Rightarrow> string list" where
  "split_ws s = filter (\<lambda>t. t \<noteq> []) (split_where py_isspace s)"

definition is_digit :: "char \<Rightarrow> bool" where
  "is_digit c = (c \<in> set ''0123456789'')"

definition digit_val :: "char \<Rightarrow> int" where
  "digit_val c = int (of_char c) - 48"

text \<open>Digits, with single underscores allowed between two digits.\<close>

fun digits_ok :: "string \<Rightarrow> bool" where
  "digits_ok [] = True"
| "digits_ok (c # cs) =
     (if is_digit c then digits_ok cs
      else c = CHR ''_'' \<and> (case cs of [] \<Rightarrow> False | d # _ \<Rightarrow> is_digit d) \<and> digits_ok cs)"

text \<open>
  The interpreter's default limit on the number of digit characters of a decimal literal
  (\<^verbatim>\<open>sys.int_info.default_max_str_digits\<close>); sign, underscores and whitespace do not count,
  leading zeros do.
\<close>

definition int_max_str_digits :: int where
  "int_max_str_digits = 4300"

definition int_literal_ok :: "string \<Rightarrow> bool" where
  "int_literal_ok b =
     (case b of
        [] \<Rightarrow> False
      | c # _ \<Rightarrow> is_digit c \<and> digits_ok b \<and> int (length (filter is_digit b)) \<le> int_max_str_digits)"

definition digits_value :: "string \<Rightarrow> int" where
  "digits_value b = foldl (\<lambda>a c. 10 * a + digit_val c) 0 (filter is_digit b)"

text \<open>
  \<^verbatim>\<open>int(s)\<close> in base ten: the whitespace around is dropped, one sign is allowed, then digits
  (within the limit); anything else raises ValueError.
\<close>

definition py_int :: "string \<Rightarrow> py_error + int" where
  "py_int s =
     (case rev (dropWhile int_isspace (rev (dropWhile int_isspace s))) of
        [] \<Rightarrow> Inl ValueError
      | c # cs \<Rightarrow>
          (if c = CHR ''-'' then (if int_literal_ok cs then Inr (- digits_value cs) else Inl ValueError)
           else if c = CHR ''+'' then (if int_literal_ok cs then Inr (digits_value cs) else Inl ValueError)
           else if int_literal_ok (c # cs) then Inr (digits_value (c # cs)) else Inl ValueError))"

text \<open>\<^verbatim>\<open>map(int, parts)\<close>, consumed left to right: the first bad field raises.\<close>

fun map_int :: "string list \<Rightarrow> py_error + int list" where
  "map_int [] = Inr []"
| "map_int (p # ps) = bind_e (py_int p) (\<lambda>v. bind_e (map_int ps) (\<lambda>vs. Inr (v # vs)))"

subsection \<open>Formatting\<close>

definition digit_char :: "int \<Rightarrow> char" where
  "digit_char d = ''0123456789'' ! nat d"

text \<open>The decimal digits of a non-negative int.\<close>

function str_of_nat :: "int \<Rightarrow> string" where
  "str_of_nat n = (if n < 10 then [digit_char n] else str_of_nat (n div 10) @ [digit_char (n mod 10)])"
  by pat_completeness auto
termination
  by (relation "measure nat") auto

declare str_of_nat.simps [simp del]

definition str_of_int :: "int \<Rightarrow> string" where
  "str_of_int i = (if i < 0 then CHR ''-'' # str_of_nat (- i) else str_of_nat i)"

definition pad6 :: "string \<Rightarrow> string" where
  "pad6 s = replicate (6 - length s) CHR ''0'' @ s"

text \<open>The value a \<^verbatim>\<open>.6f\<close> rendering denotes: the float rounded to a multiple of \<open>1 / 10 ^ 6\<close>.\<close>

definition round6 :: "rat \<Rightarrow> rat" where
  "round6 x = of_int (round_half_even (x * 10 ^ 6)) / 10 ^ 6"

text \<open>\<^verbatim>\<open>f"{x:.6f}"\<close>: a sign for a negative float, the integer part, a point, six digits.\<close>

definition format_6f :: "rat \<Rightarrow> string" where
  "format_6f x =
     (let n = round_half_even (\<bar>x\<bar> * 10 ^ 6)
      in (if x < 0 then ''-'' else '''') @ str_of_nat (n div 10 ^ 6) @ ''.''
         @ pad6 (str_of_nat (n mod 10 ^ 6)))"

section \<open>The annotation converter\<close>

text \<open>Lines 116 to 119 of \<^verbatim>\<open>convert_deeppcb.py\<close>, in the order they are evaluated.\<close>

definition yolo_box ::
  "int \<Rightarrow> int \<Rightarrow> int \<Rightarrow> int \<Rightarrow> nat \<Rightarrow> nat \<Rightarrow> py_error + (rat \<times> rat \<times> rat \<times> rat)" where
  "yolo_box x1 y1 x2 y2 w h =
     bind_e (int_truediv (x1 + x2) 2) (\<lambda>sx.
     bind_e (float_div_int sx (int w)) (\<lambda>center_x.
     bind_e (int_truediv (y1 + y2) 2) (\<lambda>sy.
     bind_e (float_div_int sy (int h)) (\<lambda>center_y.
     bind_e (int_truediv (x2 - x1) (int w)) (\<lambda>bbox_width.
     bind_e (int_truediv (y2 - y1) (int h)) (\<lambda>bbox_height.
     Inr (center_x, center_y, bbox_width, bbox_height)))))))"

text \<open>Lines 122 and 123: DeepPCB class ids 1 to 6 become 0 to 5.\<close>

definition remap_class :: "int \<Rightarrow> int" where
  "remap_class class_id = (if class_id > 0 then class_id - 1 else class_id)"

text \<open>Line 125: the text written for one box.\<close>

definition yolo_line :: "int \<Rightarrow> rat \<times> rat \<times> rat \<times> rat \<Rightarrow> string" where
  "yolo_line class_id b =
     (case b of (center_x, center_y, bbox_width, bbox_height) \<Rightarrow>
        str_of_int class_id @ '' '' @ format_6f center_x @ '' '' @ format_6f center_y @ '' ''
        @ format_6f bbox_width @ '' '' @ format_6f bbox_height @ [CHR 0x0A])"

text \<open>Lines 107 to 110: comma-separated when the line has a comma, else whitespace-separated.\<close>

definition tokenize :: "string \<Rightarrow> string list" where
  "tokenize line = (if CHR '','' \<in> set line then split_comma line else split_ws line)"

text \<open>
  What one pass of the loop body does with a line: nothing (\<open>Skip\<close>: a blank line, fewer
  than five fields, or a ValueError or IndexError caught by the inner handler), one line
  written (\<open>Emit\<close>), or an exception that leaves the loop (\<open>Abort\<close>).
\<close>

datatype line_outcome = Skip | Emit string | Abort py_error

definition inner_handler :: "py_error + string \<Rightarrow> line_outcome" where
  "inner_handler r =
     (case r of
        Inr s \<Rightarrow> Emit s
      | Inl e \<Rightarrow> (if e = ValueError \<or> e = IndexError then Skip else Abort e))"

definition convert_fields :: "nat \<Rightarrow> nat \<Rightarrow> string list \<Rightarrow> py_error + string" where
  "convert_fields w h parts =
     bind_e (map_int (take 5 parts)) (\<lambda>vs.
       (case vs of
          [x1, y1, x2, y2, class_id] \<Rightarrow>
            bind_e (yolo_box x1 y1 x2 y2 w h) (\<lambda>b. Inr (yolo_line (remap_class class_id) b))
        | _ \<Rightarrow> Inl ValueError))"

definition convert_line :: "nat \<Rightarrow> nat \<Rightarrow> string \<Rightarrow> line_outcome" where
  "convert_line w h raw =
     (let line = strip raw
      in if line = [] then Skip
         else let parts = tokenize line
              in if length parts \<ge> 5 then inner_handler (convert_fields w h parts) else Skip)"

text \<open>
  A line is successfully parsed when it has at least five fields of which the first five
  are ints (lines 112 and 113); any other line is malformed (or blank).
\<close>

definition parses :: "string \<Rightarrow> bool" where
  "parses raw =
     (let parts = tokenize (strip raw)
      in 5 \<le> length parts \<and> (case map_int (take 5 parts) of Inl e \<Rightarrow> False | Inr vs \<Rightarrow> True))"

text \<open>The loop over the lines: what was written, and the exception that ended it, if any.\<close>

fun convert_lines :: "nat \<Rightarrow> nat \<Rightarrow> string list \<Rightarrow> string list \<times> py_error option" where
  "convert_lines w h [] = ([], None)"
| "convert_lines w h (l # ls) =
     (case convert_line w h l of
        Skip \<Rightarrow> convert_lines w h ls
      | Emit s \<Rightarrow> (case convert_lines w h ls of (out, e) \<Rightarrow> (s # out, e))
      | Abort e \<Rightarrow> ([], Some e))"

subsection \<open>Files\<close>

text \<open>
  A file is what the scripts observe of it: the lines that iterating over it as text
  yields, and the size that \<^verbatim>\<open>Image.open\<close> reports, if it opens as an image. A directory
  maps names to files.
\<close>

record py_file =
  text_lines :: "string list"
  image_size :: "(nat \<times> nat) option"

type_synonym dir = "string \<rightharpoonup> py_file"

definition text_file :: "string list \<Rightarrow> py_file" where
  "text_file ls = \<lparr>text_lines = ls, image_size = None\<rparr>"

text \<open>Lines 94 and 95: a missing file and a file that is no image both raise (an OSError).\<close>

definition image_open :: "py_file option \<Rightarrow> py_error + (nat \<times> nat)" where
  "image_open image_file =
     (case image_file of
        None \<Rightarrow> Inl OSError
      | Some f \<Rightarrow> (case image_size f of None \<Rightarrow> Inl OSError | Some wh \<Rightarrow> Inr wh))"

text \<open>
  \<^verbatim>\<open>convert_annotation_file\<close> (lines 89 to 135). The annotation and the image are what
  their paths hold (\<open>None\<close>: no such file); the output is the entry \<open>output_file\<close> of the
  label directory, a path other than the two inputs. The image is opened first, then the
  annotation, then the output for writing, which empties it. Any exception of the body is
  caught by the outer handler, after the \<^verbatim>\<open>with\<close> block has closed the output with what
  was written so far.
\<close>

definition convert_annotation_file :: "py_file option \<Rightarrow> py_file option \<Rightarrow> string \<Rightarrow> dir \<Rightarrow> bool \<times> dir" where
  "convert_annotation_file annotation_file image_file output_file labels =
     (case image_open image_file of
        Inl e \<Rightarrow> (False, labels)
      | Inr (w, h) \<Rightarrow>
          (case annotation_file of
             None \<Rightarrow> (False, labels)
           | Some f_in \<Rightarrow>
               (case convert_lines w h (text_lines f_in) of
                  (written, raised) \<Rightarrow> (raised = None, labels(output_file \<mapsto> text_file written)))))"

subsection \<open>The same converter in \<^verbatim>\<open>fix_and_setup_dataset.py\<close>\<close>





section \<open>The collector\<close>

subsection \<open>Names and listings\<close>

definition startswith :: "string \<Rightarrow> string \<Rightarrow> bool" where
  "startswith s p = (take (length p) s = p)"

definition endswith :: "string \<Rightarrow> string \<Rightarrow> bool" where
  "endswith s p = (length p \<le> length s \<and> drop (length s - length p) s = p)"

text \<open>
  \<^verbatim>\<open>os.path.splitext(name)[0]\<close> for a name without directory part: the name up to its last
  dot, provided some character other than a dot precedes that dot.
\<close>

definition splitext_root :: "string \<Rightarrow> string" where
  "splitext_root p =
     (let r = rev p; e = takeWhile (\<lambda>c. c \<noteq> CHR ''.'') r; rest = drop (Suc (length e)) r
      in if length e < length r \<and> list_ex (\<lambda>c. c \<noteq> CHR ''.'') rest then rev rest else p)"






record collected =
  all_images :: dir
  labels :: dir
  total_processed :: nat
  total_converted :: nat





section \<open>The splitter\<close>

subsection \<open>Pairing labels with images (\<^verbatim>\<open>prepare_data.py\<close>, lines 43 to 75)\<close>








subsection \<open>Slicing\<close>

text \<open>Python's slice bounds: a negative bound counts from the end, and both are clamped.\<close>

definition slice_index :: "nat \<Rightarrow> int \<Rightarrow> nat" where
  "slice_index n i = (if i < 0 then nat (int n + i) else min n (nat i))"

definition py_slice :: "'a list \<Rightarrow> int \<Rightarrow> int \<Rightarrow> 'a list" where
  "py_slice xs lo hi =
     (let a = slice_index (length xs) lo; b = slice_index (length xs) hi
      in take (b - a) (drop a xs))"

definition slice_to :: "'a list \<Rightarrow> int \<Rightarrow> 'a list" where
  "slice_to xs hi = py_slice xs 0 hi"

definition slice_from :: "'a list \<Rightarrow> int \<Rightarrow> 'a list" where
  "slice_from xs lo = py_slice xs lo (int (length xs))"

subsection \<open>\<^verbatim>\<open>split_unified_dataset\<close> (\<^verbatim>\<open>prepare_data.py\<close>)\<close>

definition default_train_ratio :: rat where
  "default_train_ratio = float_literal (7 / 10)"

definition default_val_ratio :: rat where
  "default_val_ratio = float_literal (2 / 10)"


text \<open>Lines 87 to 89.\<close>

definition split_points :: "nat \<Rightarrow> rat \<Rightarrow> rat \<Rightarrow> py_error + (int \<times> int)" where
  "split_points total_pairs train_ratio val_ratio =
     bind_e (int_mul_float (int total_pairs) train_ratio) (\<lambda>a.
     bind_e (float_add train_ratio val_ratio) (\<lambda>r.
     bind_e (int_mul_float (int total_pairs) r) (\<lambda>b.
     Inr (int_of_float a, int_of_float b))))"

text \<open>Lines 92 to 96: the train, val and test lists.\<close>

definition split_pairs :: "'a list \<Rightarrow> rat \<Rightarrow> rat \<Rightarrow> py_error + ('a list \<times> 'a list \<times> 'a list)" where
  "split_pairs pairs train_ratio val_ratio =
     bind_e (split_points (length pairs) train_ratio val_ratio) (\<lambda>(train_end, val_end).
       Inr (slice_to pairs train_end, py_slice pairs train_end val_end, slice_from pairs val_end))"


subsection \<open>\<^verbatim>\<open>step3_split_dataset\<close> (\<^verbatim>\<open>fix_and_setup_dataset.py\<close>)\<close>

definition is_jpg :: "string \<Rightarrow> bool" where
  "is_jpg n = (endswith n ''.jpg'' \<and> \<not> startswith n ''.'')"

text \<open>Lines 186 and 187, with the literals 0.7 and 0.9.\<close>

definition step3_points :: "nat \<Rightarrow> py_error + (int \<times> int)" where
  "step3_points n =
     bind_e (int_mul_float (int n) (float_literal (7 / 10))) (\<lambda>a.
     bind_e (int_mul_float (int n) (float_literal (9 / 10))) (\<lambda>b.
     Inr (int_of_float a, int_of_float b)))"

text \<open>Lines 189 to 193.\<close>

definition step3_pairs :: "'a list \<Rightarrow> py_error + ('a list \<times> 'a list \<times> 'a list)" where
  "step3_pairs pairs =
     bind_e (step3_points (length pairs)) (\<lambda>(train_end, val_end).
       Inr (slice_to pairs train_end, py_slice pairs train_end val_end, slice_from pairs val_end))"

text \<open>Lines 164 to 193; there is no test for an empty list of pairs here.\<close>

definition step3_split_dataset ::
  "string list \<Rightarrow> string list \<Rightarrow> ((string \<times> string) list \<Rightarrow> (string \<times> string) list) \<Rightarrow>
   py_error + ((string \<times> string) list \<times> (string \<times> string) list \<times> (string \<times> string) list) option" where
  "step3_split_dataset unified_images unified_labels shuffle =
     (let image_files = filter is_jpg unified_images
      in if image_files = [] then Inr None
         else let valid_pairs =
                    concat (map (\<lambda>img_file.
                                   if splitext_root img_file @ ''.txt'' \<in> set unified_labels
                                   then [(img_file, splitext_root img_file @ ''.txt'')] else [])
                                image_files)
              in bind_e (step3_pairs (shuffle valid_pairs)) (\<lambda>splits. Inr (Some splits)))"

section \<open>The round-trip law\<close>

text \<open>
  The specification's formulas, in exact arithmetic: the normalized record of a box, and the
  denormalization \<open>x1' = (cx - bw / 2) * w\<close>, \<open>x2' = (cx + bw / 2) * w\<close> (and the same in
  \<open>y\<close>), giving \<open>(x1', y1', x2', y2')\<close>. Neither is a function of the scripts.
\<close>

definition normalize_exact :: "int \<Rightarrow> int \<Rightarrow> int \<Rightarrow> int \<Rightarrow> nat \<Rightarrow> nat \<Rightarrow> rat \<times> rat \<times> rat \<times> rat" where
  "normalize_exact x1 y1 x2 y2 w h =
     ((of_int (x1 + x2) / 2) / of_nat w, (of_int (y1 + y2) / 2) / of_nat h,
      of_int (x2 - x1) / of_nat w, of_int (y2 - y1) / of_nat h)"

definition denormalize :: "rat \<times> rat \<times> rat \<times> rat \<Rightarrow> nat \<Rightarrow> nat \<Rightarrow> rat \<times> rat \<times> rat \<times> rat" where
  "denormalize b w h =
     (case b of (cx, cy, bw, bh) \<Rightarrow>
        ((cx - bw / 2) * of_nat w, (cy - bh / 2) * of_nat h,
         (cx + bw / 2) * of_nat w, (cy + bh / 2) * of_nat h))"

text \<open>The four numbers that the written line denotes: each float at six decimals.\<close>

definition persisted :: "rat \<times> rat \<times> rat \<times> rat \<Rightarrow> rat \<times> rat \<times> rat \<times> rat" where
  "persisted b = (case b of (cx, cy, bw, bh) \<Rightarrow> (round6 cx, round6 cy, round6 bw, round6 bh))"

subsection \<open>What the collector meets\<close>



section \<open>Helper lemmas\<close>

subsection \<open>Rounding\<close>

lemma rhe_of_int: "round_half_even (of_int n) = n"
  by (simp add: round_half_even_def)

lemma rhe_floor_le: "\<lfloor>x\<rfloor> \<le> round_half_even x"
  by (simp add: round_half_even_def Let_def)

lemma rhe_le_floor: "round_half_even x \<le> \<lfloor>x\<rfloor> + 1"
  by (simp add: round_half_even_def Let_def)

lemma rhe_mono: "x \<le> y \<Longrightarrow> round_half_even x \<le> round_half_even y"
proof -
  assume xy: "x \<le> y"
  then have "\<lfloor>x\<rfloor> \<le> \<lfloor>y\<rfloor>" by (rule floor_mono)
  then consider "\<lfloor>x\<rfloor> = \<lfloor>y\<rfloor>" | "\<lfloor>x\<rfloor> + 1 \<le> \<lfloor>y\<rfloor>" by linarith
  then show ?thesis
  proof cases
    case 1
    with xy show ?thesis by (auto simp: round_half_even_def Let_def)
  next
    case 2
    with rhe_le_floor [of x] rhe_floor_le [of y] show ?thesis by linarith
  qed
qed

lemma rhe_err: "\<bar>of_int (round_half_even x) - x\<bar> \<le> 1 / 2"
proof -
  have "of_int \<lfloor>x\<rfloor> \<le> x" "x < of_int \<lfloor>x\<rfloor> + 1" by linarith+
  then show ?thesis by (simp add: round_half_even_def Let_def abs_if) linarith
qed

lemma ilog2_bounds:
  assumes "0 < x"
  shows "2 powi ilog2 x \<le> x" and "x < 2 powi (ilog2 x + 1)"
proof -
  obtain p q where pq: "quotient_of x = (p, q)" by (cases "quotient_of x")
  then have q: "0 < q" and x: "x = of_int p / of_int q"
    by (simp_all add: quotient_of_denom_pos quotient_of_div)
  with assms have p: "0 < p" by (simp add: zero_less_divide_iff)
  define bp bq where "bp = bitlen p" and "bq = bitlen q"
  have bp1: "1 \<le> bp" and bq1: "1 \<le> bq"
    using p q bitlen_eq_zero_iff [of p] bitlen_eq_zero_iff [of q] bitlen_nonneg [of p] bitlen_nonneg [of q]
    unfolding bp_def bq_def by linarith+
  have "2 ^ nat (bp - 1) \<le> p" "p < 2 ^ nat bp" "2 ^ nat (bq - 1) \<le> q" "q < 2 ^ nat bq"
    using bitlen_bounds [OF p] bitlen_bounds [OF q] unfolding bp_def bq_def by simp_all
  then have P: "(2::rat) ^ nat (bp - 1) \<le> of_int p" "of_int p < (2::rat) ^ nat bp"
    and Q: "(2::rat) ^ nat (bq - 1) \<le> of_int q" "of_int q < (2::rat) ^ nat bq"
    by (metis of_int_le_iff of_int_less_iff of_int_numeral of_int_power)+
  have pw: "(2::rat) ^ nat k = 2 powi k" if "0 \<le> k" for k
    using that by (simp add: power_int_def)
  have P': "(2::rat) powi (bp - 1) \<le> of_int p" "of_int p < (2::rat) powi bp"
    and Q': "(2::rat) powi (bq - 1) \<le> of_int q" "of_int q < (2::rat) powi bq"
    using P Q bp1 bq1 by (simp_all add: pw)
  have qpos: "(0::rat) < of_int q" using q by simp
  have up: "x < 2 powi (bp - bq + 1)"
  proof -
    have "of_int p < (2::rat) powi bp" by (rule P')
    also have "\<dots> = 2 powi (bp - bq + 1) * 2 powi (bq - 1)"
      by (simp flip: power_int_add)
    also have "\<dots> \<le> 2 powi (bp - bq + 1) * of_int q"
      using Q'(1) by (intro mult_left_mono) simp_all
    finally show ?thesis using qpos by (simp add: x pos_divide_less_eq)
  qed
  have lo: "2 powi (bp - bq - 1) < x"
  proof -
    have "2 powi (bp - bq - 1) * of_int q < 2 powi (bp - bq - 1) * (2::rat) powi bq"
      using Q'(2) by (intro mult_strict_left_mono) simp_all
    also have "\<dots> = 2 powi (bp - 1)"
      by (simp flip: power_int_add)
    also have "\<dots> \<le> of_int p" by (rule P')
    finally show ?thesis using qpos by (simp add: x pos_less_divide_eq)
  qed
  have il: "ilog2 x = (if 2 powi (bp - bq) \<le> x then bp - bq else bp - bq - 1)"
    by (simp add: ilog2_def pq bp_def bq_def Let_def)
  show "2 powi ilog2 x \<le> x" using lo by (simp add: il)
  show "x < 2 powi (ilog2 x + 1)" using up by (simp add: il)
qed

lemma powi2_less_imp: "(2::rat) powi a < 2 powi b \<Longrightarrow> a < b"
  using power_int_increasing [of b a "2::rat"] by (cases "a < b") simp_all

lemma ilog2_mono:
  assumes "0 < x" "x \<le> y"
  shows "ilog2 x \<le> ilog2 y"
proof -
  have "2 powi ilog2 x \<le> x" using assms ilog2_bounds by simp
  also have "x \<le> y" by fact
  also have "y < 2 powi (ilog2 y + 1)" using assms ilog2_bounds by simp
  finally show ?thesis using powi2_less_imp by fastforce
qed

lemma ulp_exp_mono:
  assumes "0 < x" "x \<le> y"
  shows "ulp_exp x \<le> ulp_exp y"
  using ilog2_mono [of x y] assms by (simp add: ulp_exp_def)

lemma fl_le_grid:
  assumes "x \<le> of_int m * 2 powi k" "ulp_exp x \<le> k"
  shows "fl x \<le> of_int m * 2 powi k"
proof (cases "x = 0")
  case True
  with assms show ?thesis by (simp add: fl_def)
next
  case False
  define u :: rat where "u = 2 powi ulp_exp x"
  have u: "0 < u" by (simp add: u_def)
  have "(2::rat) powi k = 2 powi (k - ulp_exp x) * 2 powi ulp_exp x"
    by (simp flip: power_int_add)
  also have "(2::rat) powi (k - ulp_exp x) = 2 ^ nat (k - ulp_exp x)"
    using assms(2) by (simp add: power_int_nonneg_exp)
  finally have g: "of_int m * (2::rat) powi k = of_int (m * 2 ^ nat (k - ulp_exp x)) * u"
    by (simp add: u_def)
  have "x / u \<le> of_int (m * 2 ^ nat (k - ulp_exp x))"
    using assms(1) u unfolding g by (simp add: pos_divide_le_eq)
  then have "round_half_even (x / u) \<le> m * 2 ^ nat (k - ulp_exp x)"
    using rhe_mono rhe_of_int by metis
  then have "of_int (round_half_even (x / u)) * u \<le> of_int (m * 2 ^ nat (k - ulp_exp x)) * u"
    using u by (intro mult_right_mono) (simp_all only: of_int_le_iff less_imp_le)
  then show ?thesis using False unfolding g by (simp add: fl_def u_def)
qed

lemma fl_ge_grid:
  assumes "of_int m * 2 powi k \<le> x" "ulp_exp x \<le> k"
  shows "of_int m * 2 powi k \<le> fl x"
proof (cases "x = 0")
  case True
  with assms show ?thesis by (simp add: fl_def)
next
  case False
  define u :: rat where "u = 2 powi ulp_exp x"
  have u: "0 < u" by (simp add: u_def)
  have "(2::rat) powi k = 2 powi (k - ulp_exp x) * 2 powi ulp_exp x"
    by (simp flip: power_int_add)
  also have "(2::rat) powi (k - ulp_exp x) = 2 ^ nat (k - ulp_exp x)"
    using assms(2) by (simp add: power_int_nonneg_exp)
  finally have g: "of_int m * (2::rat) powi k = of_int (m * 2 ^ nat (k - ulp_exp x)) * u"
    by (simp add: u_def)
  have "of_int (m * 2 ^ nat (k - ulp_exp x)) \<le> x / u"
    using assms(1) u unfolding g by (simp add: pos_le_divide_eq)
  then have "m * 2 ^ nat (k - ulp_exp x) \<le> round_half_even (x / u)"
    using rhe_mono rhe_of_int by metis
  then have "of_int (m * 2 ^ nat (k - ulp_exp x)) * u \<le> of_int (round_half_even (x / u)) * u"
    using u by (intro mult_right_mono) (simp_all only: of_int_le_iff less_imp_le)
  then show ?thesis using False unfolding g by (simp add: fl_def u_def)
qed

lemma fl_nonneg: "0 \<le> x \<Longrightarrow> 0 \<le> fl x"
  using fl_ge_grid [of 0 "ulp_exp x" x] by simp

lemma fl_mono_pos:
  assumes "0 < x" "x \<le> y"
  shows "fl x \<le> fl y"
proof -
  have le: "ulp_exp x \<le> ulp_exp y" using assms by (rule ulp_exp_mono)
  have y: "0 < y" using assms by simp
  show ?thesis
  proof (cases "ulp_exp x = ulp_exp y")
    case True
    define u :: rat where "u = 2 powi ulp_exp x"
    have u: "0 < u" by (simp add: u_def)
    have "x / u \<le> y / u" using assms u by (simp add: divide_right_mono)
    then have "round_half_even (x / u) \<le> round_half_even (y / u)" by (rule rhe_mono)
    then have "of_int (round_half_even (x / u)) * u \<le> of_int (round_half_even (y / u)) * u"
      using u by (intro mult_right_mono) (simp_all only: of_int_le_iff less_imp_le)
    then show ?thesis using assms y True by (simp add: fl_def u_def)
  next
    case False
    with le have lt: "ulp_exp x < ulp_exp y" by simp
    define k where "k = ulp_exp y + 52"
    have ky: "k = ilog2 y" and kx: "ilog2 x + 1 \<le> k"
      using lt y assms(1) by (simp_all add: ulp_exp_def k_def max_def split: if_splits)
    have "x < 2 powi (ilog2 x + 1)" using assms(1) by (rule ilog2_bounds)
    also have "\<dots> \<le> 2 powi k" using kx by (intro power_int_increasing) simp_all
    finally have "x \<le> of_int 1 * 2 powi k" by simp
    moreover have "ulp_exp x \<le> k" using lt by (simp add: k_def)
    ultimately have a: "fl x \<le> of_int 1 * 2 powi k" by (rule fl_le_grid)
    have "of_int 1 * 2 powi k \<le> y" using ilog2_bounds(1) [OF y] by (simp add: ky)
    moreover have "ulp_exp y \<le> k" by (simp add: k_def)
    ultimately have b: "of_int 1 * 2 powi k \<le> fl y" by (rule fl_ge_grid)
    from a b show ?thesis by simp
  qed
qed

lemma fl_mono_nonneg:
  assumes "0 \<le> x" "x \<le> y"
  shows "fl x \<le> fl y"
proof (cases "x = 0")
  case True
  with assms fl_nonneg [of y] show ?thesis by (simp add: fl_def)
next
  case False
  with assms fl_mono_pos show ?thesis by simp
qed

lemma fl_err: "\<bar>fl x - x\<bar> \<le> 2 powi (ulp_exp x - 1)"
proof (cases "x = 0")
  case True
  then show ?thesis by (simp add: fl_def)
next
  case False
  define u :: rat where "u = 2 powi ulp_exp x"
  have u: "0 < u" by (simp add: u_def)
  have "fl x - x = (of_int (round_half_even (x / u)) - x / u) * u"
    using False u by (simp add: fl_def u_def algebra_simps)
  then have "\<bar>fl x - x\<bar> = \<bar>of_int (round_half_even (x / u)) - x / u\<bar> * u"
    using u by (simp add: abs_mult)
  also have "\<dots> \<le> (1 / 2) * u"
    using u rhe_err [of "x / u"] by (intro mult_right_mono) simp_all
  also have "\<dots> = 2 powi (ulp_exp x - 1)"
    by (simp add: u_def power_int_diff)
  finally show ?thesis .
qed

lemma fl_one: "fl 1 = 1"
  by code_simp

lemma rhe_minus: "round_half_even (- x) = - round_half_even x"
proof (cases "x = of_int \<lfloor>x\<rfloor>")
  case True
  then obtain n where "x = of_int n" ..
  then have "- x = of_int (- n)" by simp
  then show ?thesis using \<open>x = of_int n\<close> rhe_of_int by metis
next
  case False
  then have lt: "of_int \<lfloor>x\<rfloor> < x" "x < of_int \<lfloor>x\<rfloor> + 1"
    by (linarith, linarith)
  have fm: "\<lfloor>- x\<rfloor> = - \<lfloor>x\<rfloor> - 1"
    using lt by (intro floor_unique) simp_all
  show ?thesis
    unfolding round_half_even_def Let_def fm using lt
    by (auto simp: algebra_simps)
qed

lemma ilog2_ge: "0 < x \<Longrightarrow> 2 powi k \<le> x \<Longrightarrow> k \<le> ilog2 x"
  using ilog2_bounds(2) [of x] powi2_less_imp [of k "ilog2 x + 1"] by force

lemma ilog2_less: "0 < x \<Longrightarrow> x < 2 powi k \<Longrightarrow> ilog2 x < k"
  using ilog2_bounds(1) [of x] powi2_less_imp [of "ilog2 x" k] by force

lemma ulp_exp_minus: "ulp_exp (- x) = ulp_exp x"
  by (simp add: ulp_exp_def)

lemma fl_minus: "fl (- x) = - fl x"
  by (simp add: fl_def ulp_exp_minus rhe_minus)

lemma fl_abs: "\<bar>fl x\<bar> = fl \<bar>x\<bar>"
proof (cases "0 \<le> x")
  case True
  then show ?thesis using fl_nonneg [of x] by simp
next
  case False
  then have "0 \<le> - x" by simp
  then have "0 \<le> fl (- x)" by (rule fl_nonneg)
  then show ?thesis using False by (simp add: fl_minus abs_if)
qed

lemma fl_zero: "fl 0 = 0"
  by (simp add: fl_def)

lemma fl_ge_one: "1 \<le> x \<Longrightarrow> 1 \<le> fl x"
  using fl_mono_nonneg [of 1 x] by (simp add: fl_one)

lemma fl_le_one: "0 \<le> x \<Longrightarrow> x \<le> 1 \<Longrightarrow> fl x \<le> 1"
  using fl_mono_nonneg [of x 1] by (simp add: fl_one)

lemma ulp_exp_le: "\<bar>x\<bar> \<le> 2 powi k \<Longrightarrow> - 1022 \<le> k \<Longrightarrow> x \<noteq> 0 \<Longrightarrow> ulp_exp x \<le> k"
proof -
  assume a: "\<bar>x\<bar> \<le> 2 powi k" "- 1022 \<le> k" "x \<noteq> 0"
  then have "\<bar>x\<bar> < 2 powi (k + 1)"
    using power_int_strict_increasing [of k "k + 1" "2::rat"] by simp
  then have "ilog2 \<bar>x\<bar> < k + 1" using a(3) by (intro ilog2_less) simp_all
  then show ?thesis using a(2) by (simp add: ulp_exp_def)
qed

lemma fl_abs_le_pow: "\<bar>x\<bar> \<le> 2 powi k \<Longrightarrow> - 1022 \<le> k \<Longrightarrow> \<bar>fl x\<bar> \<le> 2 powi k"
proof (cases "x = 0")
  case True
  then show ?thesis by (simp add: fl_zero)
next
  case False
  assume a: "\<bar>x\<bar> \<le> 2 powi k" "- 1022 \<le> k"
  have "ulp_exp \<bar>x\<bar> \<le> k" using a False by (intro ulp_exp_le) simp_all
  then have "fl \<bar>x\<bar> \<le> of_int 1 * 2 powi k" using a(1) by (intro fl_le_grid) simp_all
  then show ?thesis by (simp add: fl_abs)
qed

lemma to_float_overflow_iff: "to_float q = Inl OverflowError \<longleftrightarrow> 2 ^ 1024 \<le> \<bar>fl q\<bar>"
proof (cases "fl q = 0")
  case True
  then show ?thesis by (simp add: to_float_def)
next
  case False
  then have pos: "0 < \<bar>fl q\<bar>" by simp
  have "1024 \<le> ilog2 \<bar>fl q\<bar> \<longleftrightarrow> 2 powi 1024 \<le> \<bar>fl q\<bar>"
    using ilog2_ge [OF pos, of 1024] ilog2_less [OF pos, of 1024] by fastforce
  then show ?thesis using False by (simp add: to_float_def Let_def)
qed

lemma to_float_cases: "to_float q = Inl OverflowError \<or> to_float q = Inr (fl q)"
  by (simp add: to_float_def Let_def)

lemma to_float_Inr: "to_float q = Inr r \<Longrightarrow> r = fl q"
  by (simp add: to_float_def Let_def split: if_splits)

lemma to_float_ok: "\<bar>q\<bar> \<le> 2 ^ 1023 \<Longrightarrow> to_float q = Inr (fl q)"
proof -
  assume "\<bar>q\<bar> \<le> 2 ^ 1023"
  then have "\<bar>fl q\<bar> \<le> 2 powi 1023" using fl_abs_le_pow [of q 1023] by simp
  then have "\<not> 2 ^ 1024 \<le> \<bar>fl q\<bar>" by simp
  then show ?thesis using to_float_overflow_iff [of q] to_float_cases [of q] by auto
qed


subsection \<open>Split points and slices\<close>

lemma int_of_float_mono: "0 \<le> x \<Longrightarrow> x \<le> y \<Longrightarrow> int_of_float x \<le> int_of_float y"
  by (simp add: int_of_float_def floor_mono)

lemma int_of_float_nonneg: "0 \<le> x \<Longrightarrow> 0 \<le> int_of_float x"
  by (simp add: int_of_float_def)

lemma float_of_int_Inr: "float_of_int n = Inr m \<Longrightarrow> m = fl (of_int n)"
  by (simp add: float_of_int_def to_float_Inr)

lemma int_mul_float_Inr:
  "int_mul_float n x = Inr y \<Longrightarrow> y = fl (fl (of_int n) * x)"
  by (auto simp: int_mul_float_def bind_e_def float_of_int_def dest!: to_float_Inr split: sum.splits)

lemma int_mul_float_ok:
  assumes "\<bar>n\<bar> \<le> 2 ^ 1000" "\<bar>x\<bar> \<le> 2"
  shows "int_mul_float n x = Inr (fl (fl (of_int n) * x))"
proof -
  have "rat_of_int \<bar>n\<bar> \<le> rat_of_int (2 ^ 1000)"
    using assms(1) by (simp only: of_int_le_iff)
  then have n: "\<bar>rat_of_int n\<bar> \<le> 2 powi 1000" by simp
  then have "\<bar>rat_of_int n\<bar> \<le> 2 ^ 1023"
    by (rule order_trans) simp
  then have a: "float_of_int n = Inr (fl (of_int n))"
    by (simp add: float_of_int_def to_float_ok)
  have "\<bar>fl (of_int n)\<bar> \<le> 2 powi 1000" using n by (intro fl_abs_le_pow) simp_all
  then have "\<bar>fl (of_int n)\<bar> * \<bar>x\<bar> \<le> 2 powi 1000 * 2"
    using assms(2) by (intro mult_mono) simp_all
  then have "\<bar>fl (of_int n) * x\<bar> \<le> 2 ^ 1023" by (simp add: abs_mult)
  then have "to_float (fl (of_int n) * x) = Inr (fl (fl (of_int n) * x))" by (rule to_float_ok)
  then show ?thesis by (simp add: int_mul_float_def a bind_e_def)
qed

lemma three_slices:
  assumes "0 \<le> a" "a \<le> b"
  shows "slice_to xs a @ py_slice xs a b @ slice_from xs b = xs"
proof -
  define a' b' where "a' = min (length xs) (nat a)" and "b' = min (length xs) (nat b)"
  have le: "a' \<le> b'" "b' \<le> length xs" using assms by (auto simp: a'_def b'_def)
  have ia: "slice_index (length xs) a = a'" "slice_index (length xs) b = b'"
    "slice_index (length xs) 0 = 0" "slice_index (length xs) (int (length xs)) = length xs"
    using assms by (simp_all add: slice_index_def a'_def b'_def)
  have "take (b' - a') (drop a' xs) @ drop (b' - a') (drop a' xs) = drop a' xs"
    by (rule append_take_drop_id)
  moreover have "drop (b' - a') (drop a' xs) = drop b' xs" using le by simp
  ultimately have mid: "take (b' - a') (drop a' xs) @ drop b' xs = drop a' xs" by (simp only:)
  have "take a' xs @ drop a' xs = xs" by (rule append_take_drop_id)
  then have "take a' xs @ take (b' - a') (drop a' xs) @ drop b' xs = xs" by (simp only: mid)
  moreover have "take (length xs - b') (drop b' xs) = drop b' xs" by simp
  ultimately show ?thesis
    by (simp add: slice_to_def slice_from_def py_slice_def ia)
qed

lemma float_add_Inr: "float_add x y = Inr r \<Longrightarrow> r = fl (x + y)"
  by (simp add: float_add_def to_float_Inr)

lemma split_points_ordered:
  assumes "fl train_ratio = train_ratio" "0 \<le> train_ratio" "0 \<le> val_ratio"
    and "split_points n train_ratio val_ratio = Inr (a, b)"
  shows "0 \<le> a \<and> a \<le> b"
proof -
  define m where "m = fl (of_int (int n))"
  have m: "0 \<le> m" unfolding m_def by (rule fl_nonneg) simp
  from assms(4) obtain x r y where
    x: "int_mul_float (int n) train_ratio = Inr x" and r: "float_add train_ratio val_ratio = Inr r"
    and y: "int_mul_float (int n) r = Inr y" and ab: "a = int_of_float x" "b = int_of_float y"
    by (auto simp: split_points_def bind_e_def split: sum.splits)
  have x': "x = fl (m * train_ratio)" using int_mul_float_Inr [OF x] by (simp add: m_def)
  have r': "r = fl (train_ratio + val_ratio)" using r by (rule float_add_Inr)
  have y': "y = fl (m * r)" using int_mul_float_Inr [OF y] by (simp add: m_def)
  have "fl train_ratio \<le> fl (train_ratio + val_ratio)"
    using assms(2,3) by (intro fl_mono_nonneg) simp_all
  then have tr: "train_ratio \<le> r" by (simp add: assms(1) r')
  have "0 \<le> m * train_ratio" using m assms(2) by simp
  moreover have "m * train_ratio \<le> m * r" using m tr by (rule mult_left_mono [rotated])
  ultimately have "0 \<le> x" "x \<le> y"
    unfolding x' y' by (auto intro: fl_nonneg fl_mono_nonneg)
  then show ?thesis
    by (simp add: ab int_of_float_nonneg int_of_float_mono)
qed

lemma step3_points_ordered:
  assumes "step3_points n = Inr (a, b)"
  shows "0 \<le> a \<and> a \<le> b"
proof -
  define m where "m = fl (of_int (int n))"
  have m: "0 \<le> m" unfolding m_def by (rule fl_nonneg) simp
  from assms obtain x y where
    x: "int_mul_float (int n) (float_literal (7 / 10)) = Inr x"
    and y: "int_mul_float (int n) (float_literal (9 / 10)) = Inr y"
    and ab: "a = int_of_float x" "b = int_of_float y"
    by (auto simp: step3_points_def bind_e_def split: sum.splits)
  have x': "x = fl (m * fl (7 / 10))"
    using int_mul_float_Inr [OF x] by (simp add: m_def float_literal_def)
  have y': "y = fl (m * fl (9 / 10))"
    using int_mul_float_Inr [OF y] by (simp add: m_def float_literal_def)
  have le: "fl (7 / 10) \<le> fl (9 / 10)" by (intro fl_mono_nonneg) simp_all
  have "0 \<le> fl (7 / 10)" by (rule fl_nonneg) simp
  then have "0 \<le> m * fl (7 / 10)" using m by simp
  moreover have "m * fl (7 / 10) \<le> m * fl (9 / 10)" using m le by (rule mult_left_mono [rotated])
  ultimately have "0 \<le> x" "x \<le> y"
    unfolding x' y' by (auto intro: fl_nonneg fl_mono_nonneg)
  then show ?thesis
    by (simp add: ab int_of_float_nonneg int_of_float_mono)
qed

lemma slices_partition:
  assumes "0 \<le> a" "a \<le> b" "mset shuffled = mset valid_pairs" "distinct valid_pairs"
    and "train = slice_to shuffled a" "val = py_slice shuffled a b" "test = slice_from shuffled b"
  shows "train @ val @ test = shuffled
       \<and> set train \<union> set val \<union> set test = set valid_pairs
       \<and> set train \<inter> set val = {} \<and> set train \<inter> set test = {} \<and> set val \<inter> set test = {}
       \<and> mset train + mset val + mset test = mset valid_pairs"
proof -
  have cat: "train @ val @ test = shuffled"
    unfolding assms(5-7) using assms(1,2) by (rule three_slices)
  have d: "distinct shuffled"
    using assms(3,4) by (metis mset_eq_imp_distinct_iff)
  have s: "set shuffled = set valid_pairs" using assms(3) by (rule mset_eq_setD)
  have "distinct (train @ val @ test)" using d by (simp only: cat)
  then have "set train \<inter> set val = {}" "set train \<inter> set test = {}" "set val \<inter> set test = {}"
    by auto
  moreover have "set train \<union> set val \<union> set test = set valid_pairs"
    using s by (simp flip: cat add: Un_assoc)
  moreover have "mset train + mset val + mset test = mset valid_pairs"
    using assms(3) by (simp flip: cat add: ac_simps)
  ultimately show ?thesis using cat by simp
qed

lemma split_points_ok:
  assumes "n \<le> 2 ^ 1000" "0 \<le> train_ratio" "train_ratio \<le> 1" "0 \<le> val_ratio" "val_ratio \<le> 1"
  shows "\<exists>p. split_points n train_ratio val_ratio = Inr p"
proof -
  have "int n \<le> int (2 ^ 1000)" using assms(1) by (simp only: of_nat_le_iff)
  then have n: "\<bar>int n\<bar> \<le> 2 ^ 1000" by simp
  have a: "int_mul_float (int n) train_ratio = Inr (fl (fl (of_int (int n)) * train_ratio))"
    using n assms(2,3) by (intro int_mul_float_ok) simp_all
  have s: "\<bar>train_ratio + val_ratio\<bar> \<le> 2 powi 1" using assms(2-5) by simp
  then have "\<bar>train_ratio + val_ratio\<bar> \<le> 2 ^ 1023" by (rule order_trans) simp
  then have r: "float_add train_ratio val_ratio = Inr (fl (train_ratio + val_ratio))"
    by (simp add: float_add_def to_float_ok)
  have "\<bar>fl (train_ratio + val_ratio)\<bar> \<le> 2 powi 1" using s by (intro fl_abs_le_pow) simp_all
  then have b: "int_mul_float (int n) (fl (train_ratio + val_ratio))
      = Inr (fl (fl (of_int (int n)) * fl (train_ratio + val_ratio)))"
    using n by (intro int_mul_float_ok) simp_all
  show ?thesis by (simp add: split_points_def a r b bind_e_def)
qed

lemma step3_points_ok:
  assumes "n \<le> 2 ^ 1000"
  shows "\<exists>p. step3_points n = Inr p"
proof -
  have "int n \<le> int (2 ^ 1000)" using assms(1) by (simp only: of_nat_le_iff)
  then have n: "\<bar>int n\<bar> \<le> 2 ^ 1000" by simp
  have "0 \<le> fl (7 / 10)" "fl (7 / 10) \<le> 1" "0 \<le> fl (9 / 10)" "fl (9 / 10) \<le> 1"
    by (simp_all add: fl_nonneg fl_le_one)
  then have "int_mul_float (int n) (fl (7 / 10)) = Inr (fl (fl (of_int (int n)) * fl (7 / 10)))"
    "int_mul_float (int n) (fl (9 / 10)) = Inr (fl (fl (of_int (int n)) * fl (9 / 10)))"
    using n by (intro int_mul_float_ok; simp)+
  then show ?thesis by (simp add: step3_points_def float_literal_def bind_e_def)
qed

subsection \<open>The converter's arithmetic\<close>

lemma int_truediv_Inr: "int_truediv a b = Inr r \<Longrightarrow> b \<noteq> 0 \<and> r = fl (of_int a / of_int b)"
  by (auto simp: int_truediv_def dest: to_float_Inr split: if_splits)

lemma float_div_int_Inr:
  "float_div_int x n = Inr r \<Longrightarrow> fl (of_int n) \<noteq> 0 \<and> r = fl (x / fl (of_int n))"
  by (auto simp: float_div_int_def bind_e_def dest!: float_of_int_Inr split: sum.splits if_splits)

lemma yolo_box_Inr:
  assumes "yolo_box x1 y1 x2 y2 w h = Inr (cx, cy, bw, bh)"
  shows "w \<noteq> 0" "h \<noteq> 0"
    "cx = fl (fl (of_int (x1 + x2) / 2) / fl (of_nat w))"
    "cy = fl (fl (of_int (y1 + y2) / 2) / fl (of_nat h))"
    "bw = fl (of_int (x2 - x1) / of_nat w)"
    "bh = fl (of_int (y2 - y1) / of_nat h)"
proof -
  from assms obtain sx sy where
    sx: "int_truediv (x1 + x2) 2 = Inr sx" and cx: "float_div_int sx (int w) = Inr cx"
    and sy: "int_truediv (y1 + y2) 2 = Inr sy" and cy: "float_div_int sy (int h) = Inr cy"
    and bw: "int_truediv (x2 - x1) (int w) = Inr bw" and bh: "int_truediv (y2 - y1) (int h) = Inr bh"
    by (auto simp: yolo_box_def bind_e_def split: sum.splits)
  show "w \<noteq> 0" "h \<noteq> 0" using int_truediv_Inr [OF bw] int_truediv_Inr [OF bh] by simp_all
  show "cx = fl (fl (of_int (x1 + x2) / 2) / fl (of_nat w))"
    using int_truediv_Inr [OF sx] float_div_int_Inr [OF cx] by simp
  show "cy = fl (fl (of_int (y1 + y2) / 2) / fl (of_nat h))"
    using int_truediv_Inr [OF sy] float_div_int_Inr [OF cy] by simp
  show "bw = fl (of_int (x2 - x1) / of_nat w)" using int_truediv_Inr [OF bw] by simp
  show "bh = fl (of_int (y2 - y1) / of_nat h)" using int_truediv_Inr [OF bh] by simp
qed

lemma int_truediv_ok:
  "b \<noteq> 0 \<Longrightarrow> \<bar>of_int a / of_int b\<bar> \<le> (2::rat) ^ 1023 \<Longrightarrow>
   int_truediv a b = Inr (fl (of_int a / of_int b))"
  by (simp add: int_truediv_def to_float_ok)

lemma float_div_int_ok:
  assumes "1 \<le> n" "rat_of_int n \<le> 2 ^ 1023"
  shows "float_div_int x n = Inr (fl (x / fl (of_int n)))"
proof -
  have "float_of_int n = Inr (fl (of_int n))"
    using assms by (simp add: float_of_int_def to_float_ok)
  moreover have "1 \<le> fl (rat_of_int n)" using assms(1) by (intro fl_ge_one) simp
  ultimately show ?thesis by (simp add: float_div_int_def bind_e_def)
qed

text \<open>One axis: the centre and the extent of an interval inside \<open>[0, w]\<close>.\<close>

lemma axis_unit_interval:
  assumes "0 \<le> a" "a < b" "b \<le> int w"
  shows "0 \<le> fl (fl (of_int (a + b) / 2) / fl (of_nat w))"
    and "fl (fl (of_int (a + b) / 2) / fl (of_nat w)) \<le> 1"
    and "0 \<le> fl (of_int (b - a) / of_nat w)"
    and "fl (of_int (b - a) / of_nat w) \<le> 1"
proof -
  define W :: rat where "W = of_nat w"
  define s :: rat where "s = of_int (a + b) / 2"
  have "rat_of_int b \<le> rat_of_int (int w)" using assms(3) by (simp only: of_int_le_iff)
  then have bW: "rat_of_int b \<le> W" by (simp add: W_def)
  have aW: "rat_of_int a < rat_of_int b" and a0: "0 \<le> rat_of_int a"
    using assms(1,2) by simp_all
  have "1 \<le> int w" using assms by linarith
  then have "rat_of_int 1 \<le> rat_of_int (int w)" by (simp only: of_int_le_iff)
  then have W1: "1 \<le> W" by (simp add: W_def)
  have s: "0 \<le> s" "s \<le> W" using bW aW a0 by (simp_all add: s_def)
  have d: "1 \<le> fl W" using W1 by (rule fl_ge_one)
  have t: "0 \<le> fl s" "fl s \<le> fl W" using s by (auto intro: fl_nonneg fl_mono_nonneg)
  have q: "0 \<le> fl s / fl W" "fl s / fl W \<le> 1" using t d by simp_all
  show "0 \<le> fl (fl (of_int (a + b) / 2) / fl (of_nat w))"
    and "fl (fl (of_int (a + b) / 2) / fl (of_nat w)) \<le> 1"
    using q unfolding s_def W_def by (auto intro: fl_nonneg fl_le_one)
  have e: "0 \<le> of_int (b - a) / W" "of_int (b - a) / W \<le> 1" using bW aW a0 W1 by simp_all
  show "0 \<le> fl (of_int (b - a) / of_nat w)" and "fl (of_int (b - a) / of_nat w) \<le> 1"
    using e unfolding W_def by (auto intro: fl_nonneg fl_le_one)
qed

lemma axis_ok:
  assumes "0 \<le> a" "a < b" "b \<le> int w" "w \<le> 2 ^ 1023"
  shows "int_truediv (a + b) 2 = Inr (fl (of_int (a + b) / 2))"
    and "float_div_int x (int w) = Inr (fl (x / fl (of_nat w)))"
    and "int_truediv (b - a) (int w) = Inr (fl (of_int (b - a) / of_nat w))"
proof -
  define W :: rat where "W = of_nat w"
  have "rat_of_nat w \<le> rat_of_nat (2 ^ 1023)" using assms(4) by (simp only: of_nat_le_iff)
  then have Wb: "W \<le> 2 ^ 1023" by (simp add: W_def)
  have "rat_of_int b \<le> rat_of_int (int w)" using assms(3) by (simp only: of_int_le_iff)
  then have bW: "rat_of_int b \<le> W" by (simp add: W_def)
  have aW: "rat_of_int a < rat_of_int b" and a0: "0 \<le> rat_of_int a"
    using assms(1,2) by simp_all
  have w1: "1 \<le> int w" using assms by linarith
  then have "rat_of_int 1 \<le> rat_of_int (int w)" by (simp only: of_int_le_iff)
  then have W1: "1 \<le> W" by (simp add: W_def)
  have "\<bar>rat_of_int (a + b) / rat_of_int 2\<bar> \<le> W" using bW aW a0 by (simp add: abs_if)
  then have "\<bar>rat_of_int (a + b) / rat_of_int 2\<bar> \<le> 2 ^ 1023" using Wb by (rule order_trans)
  then show "int_truediv (a + b) 2 = Inr (fl (of_int (a + b) / 2))"
    using int_truediv_ok [of 2 "a + b"] by simp
  show "float_div_int x (int w) = Inr (fl (x / fl (of_nat w)))"
    using float_div_int_ok [of "int w" x] w1 Wb by (simp add: W_def)
  have "\<bar>rat_of_int (b - a) / rat_of_int (int w)\<bar> \<le> 1" using bW aW a0 W1 by (simp add: W_def)
  then have "\<bar>rat_of_int (b - a) / rat_of_int (int w)\<bar> \<le> 2 ^ 1023" by (rule order_trans) simp
  then show "int_truediv (b - a) (int w) = Inr (fl (of_int (b - a) / of_nat w))"
    using int_truediv_ok [of "int w" "b - a"] w1 by simp
qed

subsection \<open>Rounding errors\<close>

lemma ulp_exp_le52:
  assumes "\<bar>x\<bar> \<le> 2 powi k" "- 1022 \<le> k" "x \<noteq> 0"
  shows "ulp_exp x \<le> k - 52"
proof -
  have "\<bar>x\<bar> < 2 powi (k + 1)"
    using assms(1) power_int_strict_increasing [of k "k + 1" "2::rat"] by simp
  then have "ilog2 \<bar>x\<bar> < k + 1" using assms(3) by (intro ilog2_less) simp_all
  then show ?thesis using assms(2) by (simp add: ulp_exp_def)
qed

lemma fl_unit_err: "\<bar>x\<bar> \<le> 1 \<Longrightarrow> \<bar>fl x - x\<bar> \<le> 2 powi (- 53)"
proof (cases "x = 0")
  case True
  then show ?thesis by (simp add: fl_zero)
next
  case False
  assume "\<bar>x\<bar> \<le> 1"
  then have "ulp_exp x \<le> 0 - 52" using False by (intro ulp_exp_le52) simp_all
  then have "(2::rat) powi (ulp_exp x - 1) \<le> 2 powi (- 53)"
    by (intro power_int_increasing) simp_all
  with fl_err [of x] show ?thesis by (rule order_trans)
qed

lemma fl_rel_err:
  assumes "1 / 2 \<le> x"
  shows "\<bar>fl x - x\<bar> \<le> x * 2 powi (- 53)"
proof -
  have pos: "0 < x" using assms by simp
  have "(2::rat) powi (- 1) \<le> x" using assms by (simp add: power_int_minus)
  then have "- 1 \<le> ilog2 x" using pos by (intro ilog2_ge)
  then have u: "ulp_exp x - 1 = ilog2 x + (- 53)" using pos by (simp add: ulp_exp_def)
  have "\<bar>fl x - x\<bar> \<le> 2 powi (ilog2 x + (- 53))" using fl_err [of x] by (simp only: u)
  also have "\<dots> = 2 powi ilog2 x * 2 powi (- 53)" by (rule power_int_add) simp
  also have "\<dots> \<le> x * 2 powi (- 53)"
    using ilog2_bounds(1) [OF pos] by (intro mult_right_mono) simp_all
  finally show ?thesis .
qed

lemma round6_err: "\<bar>round6 x - x\<bar> \<le> 1 / (2 * 10 ^ 6)"
proof -
  have "round6 x - x = (of_int (round_half_even (x * 10 ^ 6)) - x * 10 ^ 6) / 10 ^ 6"
    by (simp add: round6_def field_simps)
  then have "\<bar>round6 x - x\<bar> = \<bar>of_int (round_half_even (x * 10 ^ 6)) - x * 10 ^ 6\<bar> / 10 ^ 6"
    by (simp only: abs_divide) simp
  also have "\<dots> \<le> (1 / 2) / 10 ^ 6"
    using rhe_err [of "x * 10 ^ 6"] by (intro divide_right_mono) simp_all
  finally show ?thesis by simp
qed

text \<open>The error of the computed centre and extent on one axis.\<close>

lemma axis_float_err:
  assumes "0 \<le> a" "a < b" "b \<le> int w"
  shows "\<bar>fl (fl (of_int (a + b) / 2) / fl (of_nat w)) - (of_int (a + b) / 2) / of_nat w\<bar>
           \<le> 5 * 2 powi (- 53)"
    and "\<bar>fl (of_int (b - a) / of_nat w) - of_int (b - a) / of_nat w\<bar> \<le> 2 powi (- 53)"
proof -
  define W :: rat where "W = of_nat w"
  define s :: rat where "s = of_int (a + b) / 2"
  define u :: rat where "u = 2 powi (- 53)"
  define t d where "t = fl s" and "d = fl W"
  have u: "0 < u" "u \<le> 1 / 2" by (simp_all add: u_def power_int_minus)
  have "rat_of_int b \<le> rat_of_int (int w)" using assms(3) by (simp only: of_int_le_iff)
  then have bW: "rat_of_int b \<le> W" by (simp add: W_def)
  have aW: "rat_of_int a < rat_of_int b" and a0: "0 \<le> rat_of_int a"
    using assms(1,2) by simp_all
  have "1 \<le> b" using assms by linarith
  then have "rat_of_int 1 \<le> rat_of_int b" by (simp only: of_int_le_iff)
  then have b1: "1 \<le> rat_of_int b" by simp
  have W1: "1 \<le> W" using b1 bW by simp
  have s: "1 / 2 \<le> s" "s \<le> W" using bW aW a0 b1 by (simp_all add: s_def)
  have e1: "\<bar>t - s\<bar> \<le> s * u" unfolding t_def u_def using s(1) by (rule fl_rel_err)
  have e2: "\<bar>d - W\<bar> \<le> W * u" unfolding d_def u_def using W1 by (intro fl_rel_err) simp
  have d1: "1 \<le> d" unfolding d_def using W1 by (rule fl_ge_one)
  have t0: "0 \<le> t" "t \<le> d" unfolding t_def d_def using s by (auto intro: fl_nonneg fl_mono_nonneg)
  have "W * u \<le> W * (1 / 2)" using u W1 by (intro mult_left_mono) simp_all
  then have dW: "W / 2 \<le> d" using e2 by (simp add: abs_le_iff)
  have dWpos: "0 < d * W" using d1 W1 by simp
  have "t * W - s * d = (t - s) * W - s * (d - W)" by (simp add: algebra_simps)
  then have "\<bar>t * W - s * d\<bar> \<le> \<bar>(t - s) * W\<bar> + \<bar>s * (d - W)\<bar>" by (simp only: abs_triangle_ineq4)
  also have "\<dots> = \<bar>t - s\<bar> * W + s * \<bar>d - W\<bar>" using W1 s by (simp add: abs_mult)
  also have "\<dots> \<le> (s * u) * W + s * (W * u)"
    using e1 e2 W1 s by (intro add_mono mult_right_mono mult_left_mono) simp_all
  also have "\<dots> = 2 * u * (s * W)" by (simp add: algebra_simps)
  also have "\<dots> \<le> 2 * u * (W * W)"
    using u s W1 by (intro mult_left_mono mult_right_mono) simp_all
  also have "\<dots> = 4 * u * (W / 2 * W)" by simp
  also have "\<dots> \<le> 4 * u * (d * W)"
    using u dW W1 by (intro mult_left_mono mult_right_mono) simp_all
  finally have num: "\<bar>t * W - s * d\<bar> \<le> 4 * u * (d * W)" .
  have "t / d - s / W = (t * W - s * d) / (d * W)"
    using d1 W1 by (simp add: field_simps)
  then have "\<bar>t / d - s / W\<bar> = \<bar>t * W - s * d\<bar> / (d * W)"
    using dWpos by (simp add: abs_divide)
  also have "\<dots> \<le> 4 * u" using num dWpos by (simp add: pos_divide_le_eq)
  finally have q: "\<bar>t / d - s / W\<bar> \<le> 4 * u" .
  have "0 \<le> t / d" "t / d \<le> 1" using t0 d1 by simp_all
  then have "\<bar>fl (t / d) - t / d\<bar> \<le> u" unfolding u_def by (intro fl_unit_err) simp
  then have "\<bar>fl (t / d) - s / W\<bar> \<le> 5 * u" using q by (simp add: abs_le_iff)
  then show "\<bar>fl (fl (of_int (a + b) / 2) / fl (of_nat w)) - (of_int (a + b) / 2) / of_nat w\<bar>
           \<le> 5 * 2 powi (- 53)"
    by (simp add: t_def d_def s_def W_def u_def)
  have "0 \<le> of_int (b - a) / W" "of_int (b - a) / W \<le> 1" using bW aW a0 W1 by simp_all
  then have "\<bar>fl (of_int (b - a) / W) - of_int (b - a) / W\<bar> \<le> 2 powi (- 53)"
    by (intro fl_unit_err) simp
  then show "\<bar>fl (of_int (b - a) / of_nat w) - of_int (b - a) / of_nat w\<bar> \<le> 2 powi (- 53)"
    by (simp add: W_def)
qed

lemma two_errors:
  fixes A B :: rat
  assumes "\<bar>A\<bar> \<le> 6 / 10000000" "\<bar>B\<bar> \<le> 6 / 10000000"
  shows "\<bar>A - B / 2\<bar> \<le> 1 / 1000000" and "\<bar>A + B / 2\<bar> \<le> 1 / 1000000"
  using assms by linarith+

text \<open>Denormalizing the six-decimal values of one axis gives back both ends, to \<open>w / 10 ^ 6\<close>.\<close>

lemma axis_round_trip:
  assumes "0 \<le> a" "a < b" "b \<le> int w"
    and "c = fl (fl (of_int (a + b) / 2) / fl (of_nat w))"
    and "e = fl (of_int (b - a) / of_nat w)"
  shows "\<bar>(round6 c - round6 e / 2) * of_nat w - of_int a\<bar> \<le> of_nat w / 10 ^ 6"
    and "\<bar>(round6 c + round6 e / 2) * of_nat w - of_int b\<bar> \<le> of_nat w / 10 ^ 6"
proof -
  define W :: rat where "W = of_nat w"
  define ce ee :: rat where "ce = (of_int (a + b) / 2) / W" and "ee = of_int (b - a) / W"
  have "1 \<le> int w" using assms by linarith
  then have "rat_of_int 1 \<le> rat_of_int (int w)" by (simp only: of_int_le_iff)
  then have W1: "1 \<le> W" by (simp add: W_def)
  have c: "\<bar>c - ce\<bar> \<le> 5 * 2 powi (- 53)" and e: "\<bar>e - ee\<bar> \<le> 2 powi (- 53)"
    using axis_float_err [OF assms(1-3)] by (simp_all add: assms(4,5) ce_def ee_def W_def)
  have rc: "\<bar>round6 c - c\<bar> \<le> 1 / 2000000" and re: "\<bar>round6 e - e\<bar> \<le> 1 / 2000000"
    using round6_err [of c] round6_err [of e] by simp_all
  have small: "(2::rat) powi (- 53) \<le> 1 / 100000000" by (simp add: power_int_minus)
  have dc: "\<bar>round6 c - ce\<bar> \<le> 6 / 10000000" using c rc small by linarith
  have de: "\<bar>round6 e - ee\<bar> \<le> 6 / 10000000" using e re small by linarith
  have xa: "(ce - ee / 2) * W = of_int a" and xb: "(ce + ee / 2) * W = of_int b"
    using W1 by (simp_all add: ce_def ee_def field_simps)
  have "(round6 c - round6 e / 2) * W - (ce - ee / 2) * W
      = ((round6 c - ce) - (round6 e - ee) / 2) * W"
    by (simp add: field_simps)
  then have "(round6 c - round6 e / 2) * W - of_int a = ((round6 c - ce) - (round6 e - ee) / 2) * W"
    by (simp only: xa)
  also have "\<bar>\<dots>\<bar> = \<bar>(round6 c - ce) - (round6 e - ee) / 2\<bar> * W" using W1 by (simp add: abs_mult)
  also have "\<dots> \<le> (1 / 1000000) * W"
    using two_errors [OF dc de] W1 by (intro mult_right_mono) simp_all
  finally show "\<bar>(round6 c - round6 e / 2) * of_nat w - of_int a\<bar> \<le> of_nat w / 10 ^ 6"
    by (simp add: W_def)
  have "(round6 c + round6 e / 2) * W - (ce + ee / 2) * W
      = ((round6 c - ce) + (round6 e - ee) / 2) * W"
    by (simp add: field_simps)
  then have "(round6 c + round6 e / 2) * W - of_int b = ((round6 c - ce) + (round6 e - ee) / 2) * W"
    by (simp only: xb)
  also have "\<bar>\<dots>\<bar> = \<bar>(round6 c - ce) + (round6 e - ee) / 2\<bar> * W" using W1 by (simp add: abs_mult)
  also have "\<dots> \<le> (1 / 1000000) * W"
    using two_errors [OF dc de] W1 by (intro mult_right_mono) simp_all
  finally show "\<bar>(round6 c + round6 e / 2) * of_nat w - of_int b\<bar> \<le> of_nat w / 10 ^ 6"
    by (simp add: W_def)
qed

subsection \<open>Lines of an annotation file\<close>

lemma py_int_err: "py_int s = Inl e \<Longrightarrow> e = ValueError"
  by (auto simp: py_int_def split: list.splits if_splits)

lemma map_int_err: "map_int ps = Inl e \<Longrightarrow> e = ValueError"
proof (induction ps arbitrary: e)
  case Nil
  then show ?case by simp
next
  case (Cons p ps)
  then show ?case
    by (auto simp: bind_e_def dest: py_int_err split: sum.splits)
qed

lemma map_int_length: "map_int ps = Inr vs \<Longrightarrow> length vs = length ps"
proof (induction ps arbitrary: vs)
  case Nil
  then show ?case by simp
next
  case (Cons p ps)
  then show ?case
    by (auto simp: bind_e_def split: sum.splits)
qed

lemma map_int_bad_field: "p \<in> set ps \<Longrightarrow> py_int p = Inl ValueError \<Longrightarrow> map_int ps = Inl ValueError"
proof (induction ps)
  case Nil
  then show ?case by simp
next
  case (Cons q qs)
  show ?case
  proof (cases "py_int q")
    case (Inl e)
    then show ?thesis using py_int_err [OF Inl] by (simp add: bind_e_def)
  next
    case (Inr v)
    then have "p \<in> set qs" using Cons.prems by auto
    then have "map_int qs = Inl ValueError" using Cons by simp
    then show ?thesis using Inr by (simp add: bind_e_def)
  qed
qed

lemma to_float_err: "to_float q = Inl e \<Longrightarrow> e = OverflowError"
  by (simp add: to_float_def Let_def split: if_splits)

lemma int_truediv_err: "int_truediv a b = Inl e \<Longrightarrow> e = OverflowError \<or> e = ZeroDivisionError"
  by (auto simp: int_truediv_def dest: to_float_err split: if_splits)

lemma float_div_int_err: "float_div_int x n = Inl e \<Longrightarrow> e = OverflowError \<or> e = ZeroDivisionError"
  by (auto simp: float_div_int_def float_of_int_def bind_e_def dest: to_float_err
      split: sum.splits if_splits)

lemma yolo_box_err:
  "yolo_box x1 y1 x2 y2 w h = Inl e \<Longrightarrow> e = OverflowError \<or> e = ZeroDivisionError"
  unfolding yolo_box_def bind_e_def
  by (auto dest: int_truediv_err float_div_int_err split: sum.splits)

text \<open>The three things a line can do, by what it holds.\<close>

lemma convert_line_few_fields:
  "length (tokenize (strip raw)) < 5 \<Longrightarrow> convert_line w h raw = Skip"
  by (simp add: convert_line_def Let_def)

lemma convert_line_bad_int:
  assumes "map_int (take 5 (tokenize (strip raw))) = Inl e"
  shows "convert_line w h raw = Skip"
  using assms map_int_err [OF assms]
  by (simp add: convert_line_def Let_def convert_fields_def bind_e_def inner_handler_def)

lemma convert_line_parsed:
  assumes "5 \<le> length (tokenize (strip raw))"
    and "map_int (take 5 (tokenize (strip raw))) = Inr vs"
  shows "\<exists>x1 y1 x2 y2 class_id. vs = [x1, y1, x2, y2, class_id]
           \<and> convert_line w h raw =
               (case yolo_box x1 y1 x2 y2 w h of
                  Inl e \<Rightarrow> Abort e
                | Inr b \<Rightarrow> Emit (yolo_line (remap_class class_id) b))"
proof -
  have "length vs = 5" using map_int_length [OF assms(2)] assms(1) by simp
  then obtain x1 y1 x2 y2 class_id where vs: "vs = [x1, y1, x2, y2, class_id]"
    by (auto simp: length_Suc_conv eval_nat_numeral)
  have ne: "strip raw \<noteq> []" using assms(1) by (auto simp: tokenize_def split_ws_def)
  show ?thesis
  proof (cases "yolo_box x1 y1 x2 y2 w h")
    case (Inl e)
    then show ?thesis using yolo_box_err [OF Inl] assms ne
      by (auto simp: vs convert_line_def Let_def convert_fields_def bind_e_def inner_handler_def)
  next
    case (Inr b)
    then show ?thesis using assms ne
      by (auto simp: vs convert_line_def Let_def convert_fields_def bind_e_def inner_handler_def)
  qed
qed

lemma convert_lines_skip:
  "convert_line w h l = Skip \<Longrightarrow> convert_lines w h (pre @ l # post) = convert_lines w h (pre @ post)"
proof (induction pre)
  case Nil
  then show ?case by simp
next
  case (Cons p pre)
  then show ?case by (cases "convert_line w h p") simp_all
qed

lemma not_parses_skip: "\<not> parses raw \<Longrightarrow> convert_line w h raw = Skip"
proof (cases "length (tokenize (strip raw)) < 5")
  case True
  then show ?thesis by (rule convert_line_few_fields)
next
  case False
  assume "\<not> parses raw"
  with False obtain e where "map_int (take 5 (tokenize (strip raw))) = Inl e"
    by (auto simp: parses_def Let_def split: sum.splits)
  then show ?thesis by (rule convert_line_bad_int)
qed

lemma parses_cases:
  assumes "parses raw"
  obtains x1 y1 x2 y2 class_id e where "convert_line w h raw = Abort e"
      "yolo_box x1 y1 x2 y2 w h = Inl e"
      "map_int (take 5 (tokenize (strip raw))) = Inr [x1, y1, x2, y2, class_id]"
  | x1 y1 x2 y2 class_id b where "convert_line w h raw = Emit (yolo_line (remap_class class_id) b)"
      "yolo_box x1 y1 x2 y2 w h = Inr b"
      "map_int (take 5 (tokenize (strip raw))) = Inr [x1, y1, x2, y2, class_id]"
proof -
  from assms obtain vs where p: "5 \<le> length (tokenize (strip raw))"
    "map_int (take 5 (tokenize (strip raw))) = Inr vs"
    by (auto simp: parses_def Let_def split: sum.splits)
  from convert_line_parsed [OF p, of w h] obtain x1 y1 x2 y2 class_id where
    vs: "vs = [x1, y1, x2, y2, class_id]"
    and c: "convert_line w h raw =
               (case yolo_box x1 y1 x2 y2 w h of
                  Inl e \<Rightarrow> Abort e
                | Inr b \<Rightarrow> Emit (yolo_line (remap_class class_id) b))"
    by blast
  show ?thesis
  proof (cases "yolo_box x1 y1 x2 y2 w h")
    case (Inl e)
    then show ?thesis using that(1) [of e x1 y1 x2 y2 class_id] c p(2) vs by simp
  next
    case (Inr b)
    then show ?thesis using that(2) [of class_id b x1 y1 x2 y2] c p(2) vs by simp
  qed
qed

lemma parses_not_skip: "parses raw \<Longrightarrow> convert_line w h raw \<noteq> Skip"
  by (erule parses_cases [of raw w h]) simp_all

lemma emit_shape:
  "convert_line w h raw = Emit s \<Longrightarrow> \<exists>class_id b. s = yolo_line class_id b"
proof -
  assume e: "convert_line w h raw = Emit s"
  then have "parses raw" using not_parses_skip [of raw w h] by auto
  then show ?thesis
  proof (rule parses_cases [of raw w h])
    fix class_id b
    assume "convert_line w h raw = Emit (yolo_line (remap_class class_id) b)"
    with e have "s = yolo_line (remap_class class_id) b" by simp
    then show ?thesis by (intro exI)
  next
    fix e'
    assume "convert_line w h raw = Abort e'"
    with e show ?thesis by simp
  qed
qed

text \<open>A run of the loop that ends without exception wrote one line per parsed line.\<close>

lemma convert_lines_success:
  assumes "convert_lines w h ls = (written, None)"
  shows "written = concat (map (\<lambda>l. case convert_line w h l of Emit s \<Rightarrow> [s] | _ \<Rightarrow> []) ls)"
    and "length written = length (filter parses ls)"
    and "\<forall>l\<in>set ls. \<forall>e. convert_line w h l \<noteq> Abort e"
  using assms
proof (induction ls arbitrary: written)
  case Nil
  { case 1 then show ?case by simp }
  { case 2 then show ?case by simp }
  { case 3 then show ?case by simp }
next
  case (Cons l ls)
  { case 1
    then show ?case using Cons.IH(1)
      by (cases "convert_line w h l") (auto split: prod.splits) }
  { case 2
    then show ?case using Cons.IH(2) not_parses_skip [of l w h] parses_not_skip [of l w h]
      by (cases "convert_line w h l") (auto split: prod.splits) }
  { case 3
    then show ?case using Cons.IH(3)
      by (cases "convert_line w h l") (auto split: prod.splits) }
qed



subsection \<open>The shape of a formatted float\<close>

lemma digit_char_digit: "0 \<le> d \<Longrightarrow> d < 10 \<Longrightarrow> is_digit (digit_char d)"
proof -
  assume "0 \<le> d" "d < 10"
  then have "nat d < length ''0123456789''" by simp
  then have "''0123456789'' ! nat d \<in> set ''0123456789''" by (rule nth_mem)
  then show ?thesis by (simp only: digit_char_def is_digit_def)
qed

lemma str_of_nat_digits: "0 \<le> n \<Longrightarrow> list_all is_digit (str_of_nat n)"
proof (induction n rule: str_of_nat.induct)
  case (1 n)
  show ?case
  proof (cases "n < 10")
    case True
    then show ?thesis using "1.prems" by (subst str_of_nat.simps) (simp add: digit_char_digit)
  next
    case False
    then have "list_all is_digit (str_of_nat (n div 10))" using 1 by simp
    moreover have "is_digit (digit_char (n mod 10))" by (intro digit_char_digit) simp_all
    ultimately show ?thesis using False by (subst str_of_nat.simps) simp
  qed
qed

lemma str_of_nat_length: "0 < k \<Longrightarrow> n < 10 ^ k \<Longrightarrow> length (str_of_nat n) \<le> k"
proof (induction n arbitrary: k rule: str_of_nat.induct)
  case (1 n)
  show ?case
  proof (cases "n < 10")
    case True
    then show ?thesis using "1.prems" by (subst str_of_nat.simps) simp
  next
    case False
    then have k: "1 < k" using "1.prems" by (cases "k = 1") auto
    then obtain j where j: "k = Suc j" "0 < j" by (cases k) auto
    have "n div 10 < 10 ^ j" using "1.prems"(2) j by simp
    then have "length (str_of_nat (n div 10)) \<le> j" using 1(1) [OF False j(2)] by simp
    then show ?thesis using False j by (subst str_of_nat.simps) simp
  qed
qed

lemma str_of_nat_nonempty: "str_of_nat n \<noteq> []"
  by (subst str_of_nat.simps) simp

lemma format_6f_shape:
  "\<exists>sign ip fp. format_6f x = sign @ ip @ ''.'' @ fp \<and> (sign = [] \<or> sign = ''-'')
     \<and> ip \<noteq> [] \<and> list_all is_digit ip \<and> length fp = 6 \<and> list_all is_digit fp"
proof -
  define n where "n = round_half_even (\<bar>x\<bar> * 10 ^ 6)"
  have "round_half_even 0 \<le> n" unfolding n_def by (rule rhe_mono) simp
  then have n0: "0 \<le> n" using rhe_of_int [of 0] by simp
  define ip fp where "ip = str_of_nat (n div 10 ^ 6)" and "fp = pad6 (str_of_nat (n mod 10 ^ 6))"
  have "length (str_of_nat (n mod 10 ^ 6)) \<le> 6" by (intro str_of_nat_length) simp_all
  then have l6: "length fp = 6" by (simp add: fp_def pad6_def)
  have "list_all is_digit (str_of_nat (n mod 10 ^ 6))" by (intro str_of_nat_digits) simp
  moreover have "is_digit CHR ''0''" by (simp add: is_digit_def)
  ultimately have "list_all is_digit fp" by (auto simp: fp_def pad6_def list_all_iff)
  moreover note l6
  moreover have "list_all is_digit ip" unfolding ip_def using n0
    by (intro str_of_nat_digits) (simp add: pos_imp_zdiv_nonneg_iff)
  moreover have "ip \<noteq> []" by (simp add: ip_def str_of_nat_nonempty)
  moreover have "format_6f x = (if x < 0 then ''-'' else []) @ ip @ ''.'' @ fp"
    by (simp add: format_6f_def Let_def n_def ip_def fp_def)
  ultimately show ?thesis by (intro exI [of _ "if x < 0 then ''-'' else []"] exI [of _ ip] exI [of _ fp]) simp
qed

subsection \<open>When the arithmetic of a line succeeds\<close>








subsection \<open>The collector's counters and directories\<close>



lemma convert_dom: "dom m \<subseteq> dom (snd (convert_annotation_file ann img out m))"
  by (auto simp: convert_annotation_file_def split: sum.splits option.splits prod.splits)















section \<open>Class remapping\<close>

text \<open>
  C5. The converter maps every strictly positive raw class identifier \<open>c\<close> to \<open>c - 1\<close> and
  passes the identifier 0 through unchanged: raw 1 becomes 0, raw 0 stays 0 and raw 6
  becomes 5.
\<close>

theorem remap_class_policy:
  "(0 < c \<longrightarrow> remap_class c = c - 1) \<and> remap_class 0 = 0 \<and> remap_class 1 = 0 \<and> remap_class 6 = 5"
  by (simp add: remap_class_def)

theorem remap_class_policy_witness:
  "0 < (4::int) \<and> remap_class 4 = 3 \<and> remap_class 0 = 0 \<and> remap_class 1 = 0 \<and> remap_class 6 = 5"
  using remap_class_policy [of 4] by simp

section \<open>Split sizes\<close>

lemma split_points_100: "split_points 100 default_train_ratio default_val_ratio = Inr (70, 89)"
  by code_simp

lemma step3_points_100: "step3_points 100 = Inr (70, 90)"
  by code_simp

text \<open>The sibling splitter of \<^verbatim>\<open>fix_and_setup_dataset.py\<close> splits 100 pairs into 70, 20 and 10.\<close>

lemma step3_split_100:
  assumes "length pairs = 100"
  shows "\<exists>train val test. step3_pairs pairs = Inr (train, val, test)
           \<and> length train = 70 \<and> length val = 20 \<and> length test = 10"
  using assms
  by (simp add: step3_pairs_def step3_points_100 bind_e_def slice_to_def slice_from_def
      py_slice_def slice_index_def)

text \<open>
  C1. The claim: on exactly 100 valid pairs, with the ratios 0.7, 0.2 and 0.1, the split
  sizes are 70, 20 and 10. What \<^verbatim>\<open>split_unified_dataset\<close> computes instead: the float sum
  \<^verbatim>\<open>0.7 + 0.2\<close> is \<^verbatim>\<open>0.8999999999999999\<close>, its product with 100 truncates to 89, and the
  sizes are 70, 19 and 11, whatever the order of the list.
\<close>

theorem prepare_data_split_100:
  assumes "length pairs = 100"
  shows "\<exists>train val test.
           split_pairs pairs default_train_ratio default_val_ratio = Inr (train, val, test)
           \<and> length train = 70 \<and> length val = 19 \<and> length test = 11"
  using assms
  by (simp add: split_pairs_def split_points_100 bind_e_def slice_to_def slice_from_def
      py_slice_def slice_index_def)

theorem prepare_data_split_100_witness:
  "length (replicate 100 (''group12_0001_test.jpg'', ''group12_0001.txt'')) = 100
   \<and> (\<exists>train val test.
         split_pairs (replicate 100 (''group12_0001_test.jpg'', ''group12_0001.txt''))
           default_train_ratio default_val_ratio = Inr (train, val, test)
         \<and> length train = 70 \<and> length val = 19 \<and> length test = 11)"
  using prepare_data_split_100 [of "replicate 100 (''group12_0001_test.jpg'', ''group12_0001.txt'')"]
  by simp

section \<open>The split is a partition\<close>

lemma default_ratios:
  "fl default_train_ratio = default_train_ratio"
  "0 \<le> default_train_ratio" "default_train_ratio \<le> 1"
  "0 \<le> default_val_ratio" "default_val_ratio \<le> 1"
  by (code_simp, code_simp, code_simp, code_simp, code_simp)

text \<open>
  C2. For every list of valid pairs (no pair listed twice) and every order the shuffle
  leaves them in, the train, val and test lists that the splitter produces are pairwise
  disjoint and together hold exactly the valid pairs: none is dropped, none is duplicated.
  This holds for \<^verbatim>\<open>split_unified_dataset\<close> with any non-negative float ratios and for
  \<^verbatim>\<open>step3_split_dataset\<close>; and both do produce the lists (ratios at most 1, fewer than
  \<open>2 ^ 1000\<close> pairs).
\<close>

theorem split_is_partition:
  assumes "mset shuffled = mset valid_pairs" and "distinct valid_pairs"
    and "fl train_ratio = train_ratio" and "0 \<le> train_ratio" and "0 \<le> val_ratio"
  shows "(\<forall>train val test.
            split_pairs shuffled train_ratio val_ratio = Inr (train, val, test)
            \<or> step3_pairs shuffled = Inr (train, val, test) \<longrightarrow>
              set train \<union> set val \<union> set test = set valid_pairs
              \<and> set train \<inter> set val = {} \<and> set train \<inter> set test = {} \<and> set val \<inter> set test = {}
              \<and> mset train + mset val + mset test = mset valid_pairs)
       \<and> (length valid_pairs \<le> 2 ^ 1000 \<and> train_ratio \<le> 1 \<and> val_ratio \<le> 1 \<longrightarrow>
            (\<exists>s. split_pairs shuffled train_ratio val_ratio = Inr s)
            \<and> (\<exists>s. step3_pairs shuffled = Inr s))"
proof (intro conjI allI impI)
  fix train val test
  assume "split_pairs shuffled train_ratio val_ratio = Inr (train, val, test)
          \<or> step3_pairs shuffled = Inr (train, val, test)"
  then obtain a b where ab: "0 \<le> a" "a \<le> b"
    and sl: "train = slice_to shuffled a" "val = py_slice shuffled a b" "test = slice_from shuffled b"
  proof
    assume "split_pairs shuffled train_ratio val_ratio = Inr (train, val, test)"
    then obtain a b where p: "split_points (length shuffled) train_ratio val_ratio = Inr (a, b)"
      and "train = slice_to shuffled a" "val = py_slice shuffled a b" "test = slice_from shuffled b"
      by (auto simp: split_pairs_def bind_e_def split: sum.splits)
    moreover have "0 \<le> a \<and> a \<le> b" using assms(3-5) p by (rule split_points_ordered)
    ultimately show ?thesis using that by blast
  next
    assume "step3_pairs shuffled = Inr (train, val, test)"
    then obtain a b where p: "step3_points (length shuffled) = Inr (a, b)"
      and "train = slice_to shuffled a" "val = py_slice shuffled a b" "test = slice_from shuffled b"
      by (auto simp: step3_pairs_def bind_e_def split: sum.splits)
    moreover have "0 \<le> a \<and> a \<le> b" using p by (rule step3_points_ordered)
    ultimately show ?thesis using that by blast
  qed
  from slices_partition [OF ab assms(1,2) sl]
  show "set train \<union> set val \<union> set test = set valid_pairs"
    and "set train \<inter> set val = {}" and "set train \<inter> set test = {}" and "set val \<inter> set test = {}"
    and "mset train + mset val + mset test = mset valid_pairs"
    by simp_all
next
  assume b: "length valid_pairs \<le> 2 ^ 1000 \<and> train_ratio \<le> 1 \<and> val_ratio \<le> 1"
  have len: "length shuffled = length valid_pairs"
    using assms(1) by (rule mset_eq_length)
  obtain p where "split_points (length shuffled) train_ratio val_ratio = Inr p"
    using split_points_ok [of "length shuffled" train_ratio val_ratio] b assms(4,5) len by auto
  then show "\<exists>s. split_pairs shuffled train_ratio val_ratio = Inr s"
    by (cases p) (simp add: split_pairs_def bind_e_def)
  obtain q where "step3_points (length shuffled) = Inr q"
    using step3_points_ok [of "length shuffled"] b len by auto
  then show "\<exists>s. step3_pairs shuffled = Inr s"
    by (cases q) (simp add: step3_pairs_def bind_e_def)
qed

theorem split_is_partition_witness:
  "\<exists>train val test.
     split_pairs [(''c.jpg'', ''c.txt''), (''a.jpg'', ''a.txt''), (''b.jpg'', ''b.txt'')]
       default_train_ratio default_val_ratio = Inr (train, val, test)
     \<and> set train \<union> set val \<union> set test
         = set [(''a.jpg'', ''a.txt''), (''b.jpg'', ''b.txt''), (''c.jpg'', ''c.txt'')]
     \<and> set train \<inter> set val = {} \<and> set train \<inter> set test = {} \<and> set val \<inter> set test = {}"
proof -
  let ?vp = "[(''a.jpg'', ''a.txt''), (''b.jpg'', ''b.txt''), (''c.jpg'', ''c.txt'')]"
  let ?sh = "[(''c.jpg'', ''c.txt''), (''a.jpg'', ''a.txt''), (''b.jpg'', ''b.txt'')]"
  have h1: "mset ?sh = mset ?vp" by simp
  have h2: "distinct ?vp" by simp
  note T = split_is_partition [OF h1 h2 default_ratios(1,2,4)]
  have "length ?vp \<le> 2 ^ 1000 \<and> default_train_ratio \<le> 1 \<and> default_val_ratio \<le> 1"
    by (simp add: default_ratios)
  with T obtain s where s: "split_pairs ?sh default_train_ratio default_val_ratio = Inr s"
    by blast
  obtain train val test where "s = (train, val, test)" by (cases s)
  with s T show ?thesis by blast
qed


section \<open>Normalized coordinates\<close>

text \<open>
  C3. For integer fields with \<open>0 \<le> x1 < x2 \<le> w\<close> and \<open>0 \<le> y1 < y2 \<le> h\<close>, the values
  \<open>cx\<close>, \<open>cy\<close>, \<open>bw\<close> and \<open>bh\<close> that the converter computes (in floating point) all lie in
  \<open>[0, 1]\<close>; and it does compute them, whatever the box, for image dimensions up to
  \<open>2 ^ 1023\<close>.
\<close>

theorem normalized_in_unit_interval:
  assumes "0 \<le> x1" "x1 < x2" "x2 \<le> int w" and "0 \<le> y1" "y1 < y2" "y2 \<le> int h"
  shows "(\<forall>cx cy bw bh. yolo_box x1 y1 x2 y2 w h = Inr (cx, cy, bw, bh) \<longrightarrow>
            0 \<le> cx \<and> cx \<le> 1 \<and> 0 \<le> cy \<and> cy \<le> 1 \<and> 0 \<le> bw \<and> bw \<le> 1 \<and> 0 \<le> bh \<and> bh \<le> 1)
       \<and> (w \<le> 2 ^ 1023 \<and> h \<le> 2 ^ 1023 \<longrightarrow> (\<exists>b. yolo_box x1 y1 x2 y2 w h = Inr b))"
proof (intro conjI allI impI)
  fix cx cy bw bh
  assume r: "yolo_box x1 y1 x2 y2 w h = Inr (cx, cy, bw, bh)"
  note v = yolo_box_Inr [OF r]
  show "0 \<le> cx" "cx \<le> 1" "0 \<le> bw" "bw \<le> 1"
    unfolding v using axis_unit_interval [OF assms(1-3)] by simp_all
  show "0 \<le> cy" "cy \<le> 1" "0 \<le> bh" "bh \<le> 1"
    unfolding v using axis_unit_interval [OF assms(4-6)] by simp_all
next
  assume b: "w \<le> 2 ^ 1023 \<and> h \<le> 2 ^ 1023"
  note x = axis_ok [OF assms(1-3)] and y = axis_ok [OF assms(4-6)]
  show "\<exists>b. yolo_box x1 y1 x2 y2 w h = Inr b"
    using b by (simp add: yolo_box_def x y bind_e_def)
qed

theorem normalized_in_unit_interval_witness:
  "\<exists>cx cy bw bh. yolo_box 10 20 30 40 640 480 = Inr (cx, cy, bw, bh)
     \<and> 0 \<le> cx \<and> cx \<le> 1 \<and> 0 \<le> cy \<and> cy \<le> 1 \<and> 0 \<le> bw \<and> bw \<le> 1 \<and> 0 \<le> bh \<and> bh \<le> 1"
proof -
  have h: "(0::int) \<le> 10" "(10::int) < 30" "30 \<le> int 640" "(0::int) \<le> 20" "(20::int) < 40" "40 \<le> int 480"
    by simp_all
  note T = normalized_in_unit_interval [OF h]
  have "(640::nat) \<le> 2 ^ 1023 \<and> (480::nat) \<le> 2 ^ 1023" by simp
  with T obtain b where b: "yolo_box 10 20 30 40 640 480 = Inr b" by blast
  obtain cx cy bw bh where "b = (cx, cy, bw, bh)" by (cases b)
  with b T show ?thesis by blast
qed


section \<open>Round trip\<close>

text \<open>
  C4. For a valid box (\<open>0 \<le> x1 < x2 \<le> w\<close>, \<open>0 \<le> y1 < y2 \<le> h\<close>), denormalizing the
  normalized record gives the box back: exactly when the record is computed in exact
  arithmetic, and to within one millionth of the image's width (for \<open>x1\<close>, \<open>x2\<close>) and
  height (for \<open>y1\<close>, \<open>y2\<close>) from the record the converter persists, that is the floats it
  computes at six decimals. The converter computes that record for dimensions up to
  \<open>2 ^ 1023\<close>.
\<close>

theorem round_trip:
  assumes "0 \<le> x1" "x1 < x2" "x2 \<le> int w" and "0 \<le> y1" "y1 < y2" "y2 \<le> int h"
  shows "denormalize (normalize_exact x1 y1 x2 y2 w h) w h
           = (of_int x1, of_int y1, of_int x2, of_int y2)
       \<and> (\<forall>b x1' y1' x2' y2'.
            yolo_box x1 y1 x2 y2 w h = Inr b \<and> denormalize (persisted b) w h = (x1', y1', x2', y2')
            \<longrightarrow> \<bar>x1' - of_int x1\<bar> \<le> of_nat w / 10 ^ 6 \<and> \<bar>y1' - of_int y1\<bar> \<le> of_nat h / 10 ^ 6
              \<and> \<bar>x2' - of_int x2\<bar> \<le> of_nat w / 10 ^ 6 \<and> \<bar>y2' - of_int y2\<bar> \<le> of_nat h / 10 ^ 6)
       \<and> (w \<le> 2 ^ 1023 \<and> h \<le> 2 ^ 1023 \<longrightarrow> (\<exists>b. yolo_box x1 y1 x2 y2 w h = Inr b))"
proof (intro conjI allI impI)
  have "0 < int w" "0 < int h" using assms by linarith+
  then have "w \<noteq> 0" "h \<noteq> 0" by simp_all
  then show "denormalize (normalize_exact x1 y1 x2 y2 w h) w h
           = (of_int x1, of_int y1, of_int x2, of_int y2)"
    by (simp add: denormalize_def normalize_exact_def field_simps)
next
  fix b x1' y1' x2' y2'
  assume a: "yolo_box x1 y1 x2 y2 w h = Inr b \<and> denormalize (persisted b) w h = (x1', y1', x2', y2')"
  obtain cx cy bw bh where b: "b = (cx, cy, bw, bh)" by (cases b)
  from a have r: "yolo_box x1 y1 x2 y2 w h = Inr (cx, cy, bw, bh)" by (simp add: b)
  note v = yolo_box_Inr [OF r]
  from a have d: "x1' = (round6 cx - round6 bw / 2) * of_nat w"
    "y1' = (round6 cy - round6 bh / 2) * of_nat h"
    "x2' = (round6 cx + round6 bw / 2) * of_nat w"
    "y2' = (round6 cy + round6 bh / 2) * of_nat h"
    by (simp_all add: b denormalize_def persisted_def)
  show "\<bar>x1' - of_int x1\<bar> \<le> of_nat w / 10 ^ 6" "\<bar>x2' - of_int x2\<bar> \<le> of_nat w / 10 ^ 6"
    unfolding d using axis_round_trip [OF assms(1-3) v(3) v(5)] by simp_all
  show "\<bar>y1' - of_int y1\<bar> \<le> of_nat h / 10 ^ 6" "\<bar>y2' - of_int y2\<bar> \<le> of_nat h / 10 ^ 6"
    unfolding d using axis_round_trip [OF assms(4-6) v(4) v(6)] by simp_all
next
  assume b: "w \<le> 2 ^ 1023 \<and> h \<le> 2 ^ 1023"
  note x = axis_ok [OF assms(1-3)] and y = axis_ok [OF assms(4-6)]
  show "\<exists>b. yolo_box x1 y1 x2 y2 w h = Inr b"
    using b by (simp add: yolo_box_def x y bind_e_def)
qed

theorem round_trip_witness:
  "denormalize (normalize_exact 10 20 30 41 640 480) 640 480 = (10, 20, 30, 41)
   \<and> (\<exists>b x1' y1' x2' y2'.
        yolo_box 10 20 30 41 640 480 = Inr b \<and> denormalize (persisted b) 640 480 = (x1', y1', x2', y2')
        \<and> \<bar>x1' - 10\<bar> \<le> 640 / 10 ^ 6 \<and> \<bar>y1' - 20\<bar> \<le> 480 / 10 ^ 6
        \<and> \<bar>x2' - 30\<bar> \<le> 640 / 10 ^ 6 \<and> \<bar>y2' - 41\<bar> \<le> 480 / 10 ^ 6)"
proof -
  have h: "(0::int) \<le> 10" "(10::int) < 30" "30 \<le> int 640" "(0::int) \<le> 20" "(20::int) < 41" "41 \<le> int 480"
    by simp_all
  note T = round_trip [OF h]
  have "(640::nat) \<le> 2 ^ 1023 \<and> (480::nat) \<le> 2 ^ 1023" by simp
  with T obtain b where b: "yolo_box 10 20 30 41 640 480 = Inr b" by blast
  obtain x1' y1' x2' y2' where d: "denormalize (persisted b) 640 480 = (x1', y1', x2', y2')"
    by (cases "denormalize (persisted b) 640 480")
  from T b d have "\<bar>x1' - of_int 10\<bar> \<le> of_nat 640 / 10 ^ 6 \<and> \<bar>y1' - of_int 20\<bar> \<le> of_nat 480 / 10 ^ 6
      \<and> \<bar>x2' - of_int 30\<bar> \<le> of_nat 640 / 10 ^ 6 \<and> \<bar>y2' - of_int 41\<bar> \<le> of_nat 480 / 10 ^ 6"
    by blast
  then have "\<bar>x1' - 10\<bar> \<le> 640 / 10 ^ 6 \<and> \<bar>y1' - 20\<bar> \<le> 480 / 10 ^ 6
      \<and> \<bar>x2' - 30\<bar> \<le> 640 / 10 ^ 6 \<and> \<bar>y2' - 41\<bar> \<le> 480 / 10 ^ 6"
    by simp
  moreover from T have "denormalize (normalize_exact 10 20 30 41 640 480) 640 480 = (10, 20, 30, 41)"
    by simp
  ultimately show ?thesis using b d by blast
qed


section \<open>Malformed lines\<close>

lemma abc_malformed: "\<not> parses ''a,b,c''"
  by code_simp

lemma sample_line:
  "convert_lines 640 640 [''10,20,30,40,1'']
     = ([''0 0.031250 0.046875 0.031250 0.031250'' @ [CHR 0x0A]], None)"
  by code_simp



section \<open>The output file\<close>

text \<open>
  C7. After a run of the converter that returns True, the output file holds exactly the
  lines written for the successfully parsed input lines, in order, one per parsed line
  and nothing else; each is the class id and four floats, separated by single spaces and
  ended by a newline, each float with exactly six digits after the point. What the output
  file held before plays no part (it need not have existed), and running the converter
  again on the result changes nothing.
\<close>

theorem output_file_rewritten:
  assumes "convert_annotation_file ann img out label_dir = (True, label_dir')"
  shows "\<exists>f_in w h written.
           ann = Some f_in \<and> image_open img = Inr (w, h)
           \<and> label_dir' = label_dir(out \<mapsto> text_file written)
           \<and> written = concat (map (\<lambda>l. case convert_line w h l of Emit s \<Rightarrow> [s] | _ \<Rightarrow> [])
                                     (text_lines f_in))
           \<and> length written = length (filter parses (text_lines f_in))
           \<and> (\<forall>s\<in>set written. \<exists>class_id cx cy bw bh.
                  s = str_of_int class_id @ '' '' @ format_6f cx @ '' '' @ format_6f cy @ '' ''
                      @ format_6f bw @ '' '' @ format_6f bh @ [CHR 0x0A])
           \<and> (\<forall>x. \<exists>sign ip fp. format_6f x = sign @ ip @ ''.'' @ fp \<and> (sign = [] \<or> sign = ''-'')
                  \<and> ip \<noteq> [] \<and> list_all is_digit ip \<and> length fp = 6 \<and> list_all is_digit fp)
           \<and> (\<forall>prior. convert_annotation_file ann img out (label_dir(out := prior)) = (True, label_dir'))
           \<and> convert_annotation_file ann img out label_dir' = (True, label_dir')"
proof -
  from assms obtain f_in w h written where
    a: "ann = Some f_in" and i: "image_open img = Inr (w, h)"
    and c: "convert_lines w h (text_lines f_in) = (written, None)"
    and l: "label_dir' = label_dir(out \<mapsto> text_file written)"
    by (auto simp: convert_annotation_file_def split: sum.splits option.splits prod.splits)
  note s = convert_lines_success [OF c]
  have shape: "\<exists>class_id cx cy bw bh.
                  s = str_of_int class_id @ '' '' @ format_6f cx @ '' '' @ format_6f cy @ '' ''
                      @ format_6f bw @ '' '' @ format_6f bh @ [CHR 0x0A]"
    if "s \<in> set written" for s
  proof -
    from that obtain raw where "convert_line w h raw = Emit s"
      unfolding s(1) by (auto split: line_outcome.splits)
    then obtain class_id b where sb: "s = yolo_line class_id b" using emit_shape by blast
    obtain cx cy bw bh where "b = (cx, cy, bw, bh)" by (cases b)
    then have "s = str_of_int class_id @ '' '' @ format_6f cx @ '' '' @ format_6f cy @ '' ''
                      @ format_6f bw @ '' '' @ format_6f bh @ [CHR 0x0A]"
      by (simp add: sb yolo_line_def)
    then show ?thesis by (intro exI)
  qed
  have again: "convert_annotation_file ann img out m = (True, m(out \<mapsto> text_file written))" for m
    by (simp add: convert_annotation_file_def a i c)
  have "convert_annotation_file ann img out (label_dir(out := prior)) = (True, label_dir')" for prior
    by (simp add: again l)
  moreover have "convert_annotation_file ann img out label_dir' = (True, label_dir')"
    by (simp add: again l)
  ultimately show ?thesis
    using a i l s(1,2) shape format_6f_shape by blast
qed

lemma sample_file:
  "convert_lines 640 640 [''a,b,c'', ''10,20,30,40,1'']
     = ([''0 0.031250 0.046875 0.031250 0.031250'' @ [CHR 0x0A]], None)"
  using convert_lines_skip [OF not_parses_skip [OF abc_malformed], of 640 640 "[]" "[''10,20,30,40,1'']"]
    sample_line
  by simp

theorem output_file_rewritten_witness:
  "convert_annotation_file (Some (text_file [''a,b,c'', ''10,20,30,40,1'']))
       (Some \<lparr>text_lines = [], image_size = Some (640, 640)\<rparr>) ''group1_x.txt''
       [''group1_x.txt'' \<mapsto> text_file [''stale'']]
     = (True, [''group1_x.txt'' \<mapsto> text_file [''0 0.031250 0.046875 0.031250 0.031250'' @ [CHR 0x0A]]])
   \<and> (\<exists>written.
         [''group1_x.txt'' \<mapsto> text_file [''0 0.031250 0.046875 0.031250 0.031250'' @ [CHR 0x0A]]]
           = [''group1_x.txt'' \<mapsto> text_file [''stale'']](''group1_x.txt'' \<mapsto> text_file written)
         \<and> length written = length (filter parses [''a,b,c'', ''10,20,30,40,1'']))
   \<and> convert_annotation_file (Some (text_file [''a,b,c'', ''10,20,30,40,1'']))
       (Some \<lparr>text_lines = [], image_size = Some (640, 640)\<rparr>) ''group1_x.txt''
       [''group1_x.txt'' \<mapsto> text_file [''0 0.031250 0.046875 0.031250 0.031250'' @ [CHR 0x0A]]]
     = (True, [''group1_x.txt'' \<mapsto> text_file [''0 0.031250 0.046875 0.031250 0.031250'' @ [CHR 0x0A]]])"
proof -
  let ?ann = "Some (text_file [''a,b,c'', ''10,20,30,40,1''])"
  let ?img = "Some \<lparr>text_lines = [], image_size = Some (640, 640)\<rparr>"
  let ?old = "[''group1_x.txt'' \<mapsto> text_file [''stale'']]"
  let ?new = "[''group1_x.txt'' \<mapsto> text_file [''0 0.031250 0.046875 0.031250 0.031250'' @ [CHR 0x0A]]]"
  have h: "convert_annotation_file ?ann ?img ''group1_x.txt'' ?old = (True, ?new)"
    by (simp add: convert_annotation_file_def image_open_def text_file_def sample_file
        del: convert_lines.simps)
  from output_file_rewritten [OF h] obtain f_in w h written where
    "?ann = Some f_in" "?new = ?old(''group1_x.txt'' \<mapsto> text_file written)"
    "length written = length (filter parses (text_lines f_in))"
    "convert_annotation_file ?ann ?img ''group1_x.txt'' ?new = (True, ?new)"
    by blast
  then show ?thesis using h by (auto simp: text_file_def)
qed


section \<open>When the converter returns True\<close>







section \<open>Absent input\<close>





section \<open>The copied image\<close>





end
